theory Spec2Isabelle
  imports Main
begin

section \<open>Texts and regular expressions\<close>

text \<open>
  The migration checks read files as texts and scan them with JavaScript regular
  expressions. A text is a \<^typ>\<open>string\<close>, one \<^typ>\<open>char\<close> per code unit (the code units
  below 256). The character classes are those of JavaScript, restricted to this range:
  \<^verbatim>\<open>\d\<close> is \<^verbatim>\<open>[0-9]\<close>, \<^verbatim>\<open>\w\<close> is \<^verbatim>\<open>[A-Za-z0-9_]\<close>, \<^verbatim>\<open>\s\<close> is tab, line feed, vertical tab, form
  feed, carriage return, space and no-break space, and \<^verbatim>\<open>.\<close> is every code unit except the
  line terminators (line feed and carriage return).
\<close>

definition is_digit :: "char \<Rightarrow> bool" where
  "is_digit c = (c \<in> set ''0123456789'')"

definition is_word :: "char \<Rightarrow> bool" where
  "is_word c =
     (c \<in> set ''abcdefghijklmnopqrstuvwxyzABCDEFGHIJKLMNOPQRSTUVWXYZ0123456789_'')"

definition is_space :: "char \<Rightarrow> bool" where
  "is_space c =
     (c \<in> {CHR 0x09, CHR 0x0A, CHR 0x0B, CHR 0x0C, CHR 0x0D, CHR 0x20, CHR 0xA0})"

definition is_dot :: "char \<Rightarrow> bool" where
  "is_dot c = (c \<notin> {CHR 0x0A, CHR 0x0D})"

definition is_chr :: "char \<Rightarrow> char \<Rightarrow> bool" where
  "is_chr a c = (c = a)"

text \<open>
  The regular expressions of the checks are sequences of single-character atoms with
  quantifiers, one capture group and a start anchor. \<open>Plus Lazy is_dot\<close> is \<^verbatim>\<open>.+?\<close>,
  \<open>Star Greedy is_space\<close> is \<^verbatim>\<open>\s*\<close>, \<open>Opt p\<close> is \<^verbatim>\<open>p?\<close>, \<open>Caret\<close> is \<^verbatim>\<open>^\<close>.
\<close>

datatype quant = Greedy | Lazy

datatype atom =
    One "char \<Rightarrow> bool"
  | Opt "char \<Rightarrow> bool"
  | Star quant "char \<Rightarrow> bool"
  | Plus quant "char \<Rightarrow> bool"
  | GroupOpen
  | GroupClose
  | Caret

type_synonym regex = "atom list"

definition lit :: "string \<Rightarrow> regex" where
  "lit s = map (\<lambda>a. One (is_chr a)) s"

text \<open>
  The capture group under construction: whether the group is open, and the text captured
  so far.
\<close>

type_synonym capture = "bool \<times> string"

fun push :: "capture \<Rightarrow> char \<Rightarrow> capture" where
  "push (opn, g) c = (if opn then (True, g @ [c]) else (False, g))"

text \<open>
  The backtracking matcher, in the order JavaScript tries the alternatives: a greedy
  quantifier takes a character first and gives it back when the rest fails, a lazy one
  tries the rest first. The flag says whether the position is the start of the input
  (where \<^verbatim>\<open>^\<close> matches). The result is the text of the capture group and the input after the
  match.
\<close>

fun bt :: "regex \<Rightarrow> bool \<Rightarrow> capture \<Rightarrow> string \<Rightarrow> (string \<times> string) option" where
  "bt [] st cap s = Some (snd cap, s)"
| "bt (Caret # r) st cap s = (if st then bt r st cap s else None)"
| "bt (GroupOpen # r) st cap s = bt r st (True, []) s"
| "bt (GroupClose # r) st cap s = bt r st (False, snd cap) s"
| "bt (One p # r) st cap s =
     (case s of [] \<Rightarrow> None
      | c # s' \<Rightarrow> if p c then bt r False (push cap c) s' else None)"
| "bt (Opt p # r) st cap s =
     (case s of [] \<Rightarrow> bt r st cap s
      | c # s' \<Rightarrow>
          if p c then
            (case bt r False (push cap c) s' of
               Some m \<Rightarrow> Some m
             | None \<Rightarrow> bt r st cap s)
          else bt r st cap s)"
| "bt (Star Greedy p # r) st cap s =
     (case s of [] \<Rightarrow> bt r st cap s
      | c # s' \<Rightarrow>
          if p c then
            (case bt (Star Greedy p # r) False (push cap c) s' of
               Some m \<Rightarrow> Some m
             | None \<Rightarrow> bt r st cap s)
          else bt r st cap s)"
| "bt (Star Lazy p # r) st cap s =
     (case bt r st cap s of
        Some m \<Rightarrow> Some m
      | None \<Rightarrow>
          (case s of [] \<Rightarrow> None
           | c # s' \<Rightarrow>
               if p c then bt (Star Lazy p # r) False (push cap c) s' else None))"
| "bt (Plus q p # r) st cap s =
     (case s of [] \<Rightarrow> None
      | c # s' \<Rightarrow> if p c then bt (Star q p # r) False (push cap c) s' else None)"

text \<open>
  \<^verbatim>\<open>RegExp.prototype.exec\<close> from a position: the leftmost position at which the matcher
  succeeds.
\<close>

fun exec :: "regex \<Rightarrow> bool \<Rightarrow> string \<Rightarrow> (string \<times> string) option" where
  "exec r st [] = bt r st (False, []) []"
| "exec r st (c # s) =
     (case bt r st (False, []) (c # s) of
        Some m \<Rightarrow> Some m
      | None \<Rightarrow> exec r False s)"

text \<open>\<^verbatim>\<open>RegExp.prototype.test\<close> on a regular expression whose \<^verbatim>\<open>lastIndex\<close> is 0.\<close>

definition test :: "regex \<Rightarrow> string \<Rightarrow> bool" where
  "test r s = (exec r True s \<noteq> None)"

text \<open>
  The loop \<^verbatim>\<open>while ((match = re.exec(text)) !== null) add(match[1])\<close> of a regular
  expression with the \<^verbatim>\<open>g\<close> flag: each search starts where the last match ended, and
  \<open>add\<close> is what the body does with the captured text. After an empty match \<^verbatim>\<open>lastIndex\<close>
  stays where it is and the loop never ends: the value is \<open>None\<close>.
\<close>

partial_function (option) exec_loop ::
  "('a \<Rightarrow> string \<Rightarrow> 'a) \<Rightarrow> regex \<Rightarrow> bool \<Rightarrow> string \<Rightarrow> 'a \<Rightarrow> 'a option" where
  "exec_loop add r st s out =
     (case exec r st s of
        None \<Rightarrow> Some out
      | Some (g, rest) \<Rightarrow> exec_loop add r (st \<and> length rest = length s) rest (add out g))"

declare exec_loop.simps [code]

text \<open>\<^verbatim>\<open>Array.prototype.push\<close> and \<^verbatim>\<open>Set.prototype.add\<close> (a set keeps insertion order).\<close>

definition array_push :: "string list \<Rightarrow> string \<Rightarrow> string list" where
  "array_push out g = out @ [g]"

definition set_add :: "string list \<Rightarrow> string \<Rightarrow> string list" where
  "set_add out g = (if g \<in> set out then out else out @ [g])"

text \<open>
  A regular expression with a \<open>One\<close> or a \<open>Plus\<close> atom takes at least one character in
  every match. For such an expression the successive matches of the loop are the list
  \<open>scan_all\<close>; the loop then ends (lemma \<open>exec_loop_scan_all\<close> below).
\<close>

fun must_consume :: "regex \<Rightarrow> bool" where
  "must_consume [] = False"
| "must_consume (One p # r) = True"
| "must_consume (Plus q p # r) = True"
| "must_consume (a # r) = must_consume r"

function scan_all :: "regex \<Rightarrow> bool \<Rightarrow> string \<Rightarrow> string list" where
  "scan_all r st s =
     (case exec r st s of
        None \<Rightarrow> []
      | Some (g, rest) \<Rightarrow> if length rest < length s then g # scan_all r False rest else [])"
  by pat_completeness auto
termination
  by (relation "measure (\<lambda>(r, st, s). length s)") auto

declare scan_all.simps [simp del]

text \<open>
  What a regular expression matches, without the order of the search: \<open>accepts r st w\<close>
  says that \<open>r\<close> matches the whole of \<open>w\<close>, from the start of the input when \<open>st\<close> holds.
\<close>

fun accepts :: "regex \<Rightarrow> bool \<Rightarrow> string \<Rightarrow> bool" where
  "accepts [] st w = (w = [])"
| "accepts (Caret # r) st w = (st \<and> accepts r st w)"
| "accepts (GroupOpen # r) st w = accepts r st w"
| "accepts (GroupClose # r) st w = accepts r st w"
| "accepts (One p # r) st w = (\<exists>c w'. w = c # w' \<and> p c \<and> accepts r False w')"
| "accepts (Opt p # r) st w =
     (accepts r st w \<or> (\<exists>c w'. w = c # w' \<and> p c \<and> accepts r False w'))"
| "accepts (Star q p # r) st w =
     (\<exists>u v. w = u @ v \<and> list_all p u \<and> accepts r (st \<and> u = []) v)"
| "accepts (Plus q p # r) st w =
     (\<exists>u v. w = u @ v \<and> u \<noteq> [] \<and> list_all p u \<and> accepts r False v)"

text \<open>
  The same with the capture group: \<open>matches r st cap w cap'\<close> says that \<open>r\<close> matches the
  whole of \<open>w\<close> and takes the capture from \<open>cap\<close> to \<open>cap'\<close>.
\<close>

fun matches :: "regex \<Rightarrow> bool \<Rightarrow> capture \<Rightarrow> string \<Rightarrow> capture \<Rightarrow> bool" where
  "matches [] st cap w cap' = (w = [] \<and> cap' = cap)"
| "matches (Caret # r) st cap w cap' = (st \<and> matches r st cap w cap')"
| "matches (GroupOpen # r) st cap w cap' = matches r st (True, []) w cap'"
| "matches (GroupClose # r) st cap w cap' = matches r st (False, snd cap) w cap'"
| "matches (One p # r) st cap w cap' =
     (\<exists>c w'. w = c # w' \<and> p c \<and> matches r False (push cap c) w' cap')"
| "matches (Opt p # r) st cap w cap' =
     (matches r st cap w cap' \<or>
      (\<exists>c w'. w = c # w' \<and> p c \<and> matches r False (push cap c) w' cap'))"
| "matches (Star q p # r) st cap w cap' =
     (\<exists>u v. w = u @ v \<and> list_all p u \<and> matches r (st \<and> u = []) (foldl push cap u) v cap')"
| "matches (Plus q p # r) st cap w cap' =
     (\<exists>u v. w = u @ v \<and> u \<noteq> [] \<and> list_all p u \<and> matches r False (foldl push cap u) v cap')"

section \<open>Version specifiers\<close>

text \<open>
  \<^verbatim>\<open>const isValidVersion = (version: string) => /^[\^~]?\d+\.\d+\.\d+/.test(version)\<close>
\<close>

definition is_range_prefix :: "char \<Rightarrow> bool" where
  "is_range_prefix c = (c = CHR ''^'' \<or> c = CHR ''~'')"

definition version_regex :: regex where
  "version_regex =
     [Caret, Opt is_range_prefix,
      Plus Greedy is_digit, One (is_chr CHR ''.''),
      Plus Greedy is_digit, One (is_chr CHR ''.''),
      Plus Greedy is_digit]"

definition isValidVersion :: "string \<Rightarrow> bool" where
  "isValidVersion version = test version_regex version"

text \<open>
  The syntax of a version specifier in words: an optional caret or tilde, then three runs
  of digits separated by dots, then \<open>rest\<close>.
\<close>

definition numbers :: "string \<Rightarrow> bool" where
  "numbers w =
     (\<exists>d1 d2 d3. w = d1 @ ''.'' @ d2 @ ''.'' @ d3 \<and>
        d1 \<noteq> [] \<and> list_all is_digit d1 \<and>
        d2 \<noteq> [] \<and> list_all is_digit d2 \<and>
        d3 \<noteq> [] \<and> list_all is_digit d3)"

definition version_syntax :: "string \<Rightarrow> string \<Rightarrow> bool" where
  "version_syntax v rest =
     (\<exists>pre d1 d2 d3.
        v = pre @ d1 @ ''.'' @ d2 @ ''.'' @ d3 @ rest \<and>
        (pre = [] \<or> pre = ''^'' \<or> pre = ''~'') \<and>
        d1 \<noteq> [] \<and> list_all is_digit d1 \<and>
        d2 \<noteq> [] \<and> list_all is_digit d2 \<and>
        d3 \<noteq> [] \<and> list_all is_digit d3)"

section \<open>The property driver\<close>

text \<open>
  Every test of the suite has the form
  \<^verbatim>\<open>fc.assert(fc.property(fc.constantFrom(...universe), predicate), { numRuns: 100 })\<close>.
  The predicate ends by \<^verbatim>\<open>return true\<close> or is left by an exception: a failed \<^verbatim>\<open>expect\<close>
  (a violation of the property) or another error.
\<close>

datatype side = Source | Target

datatype error =
    ConstantFromEmpty
  | ENOENT string
  | ENOTDIR string
  | EISDIR string
  | TypeError

text \<open>
  The expectation that failed, one constructor for each \<^verbatim>\<open>expect\<close> of the suite. The
  arguments of a constructor are an annotation of the model, the values at hand where the
  expectation fails; the error that \<^verbatim>\<open>expect\<close> throws carries the expected and the received
  value only (\<^verbatim>\<open>expected false to be true\<close>).
  \<^item> \<open>MissingInTarget targetPath\<close>: \<^verbatim>\<open>expect(existsSync(targetPath)).toBe(true)\<close>;
  \<^item> \<open>NameDiffers\<close>, \<open>ExtensionDiffers\<close>: the two \<^verbatim>\<open>toBe\<close> on \<^verbatim>\<open>basename\<close> and \<^verbatim>\<open>extname\<close>;
  \<^item> \<open>UnresolvedImport componentFile importPath\<close>: \<^verbatim>\<open>expect(exists).toBe(true)\<close>;
  \<^item> \<open>AbsentInTarget radixPackage\<close>: \<^verbatim>\<open>expect(targetDeps).toHaveProperty(radixPackage)\<close>
    (and \<^verbatim>\<open>expect(targetVersion).toBeDefined()\<close>, which fails for the same names);
  \<^item> \<open>VersionUndefined side radixPackage\<close>: \<^verbatim>\<open>expect(version).toBeDefined()\<close>;
  \<^item> \<open>InvalidVersionSyntax side version\<close>: \<^verbatim>\<open>expect(isValidVersion(version)).toBe(true)\<close>;
  \<^item> \<open>Unpreserved cssVariable\<close>: \<^verbatim>\<open>expect(existsInTarget).toBe(true)\<close>;
  \<^item> \<open>Uncaught e\<close>: an exception that is not a failed expectation;
  \<^item> \<open>ReturnedFalse\<close>: the predicate returned \<^verbatim>\<open>false\<close>.
\<close>

datatype violation =
    MissingInTarget string
  | NameDiffers string string
  | ExtensionDiffers string string
  | UnresolvedImport string string
  | AbsentInTarget string
  | VersionUndefined side string
  | InvalidVersionSyntax side string
  | Unpreserved string
  | Uncaught error
  | ReturnedFalse

datatype outcome = Passed | Failed violation | Threw error

text \<open>
  fast-check is a dependency of the repository. Its part in the tests, as its
  documentation and source describe it:
  \<^item> \<^verbatim>\<open>fc.constantFrom(...values)\<close> throws
    \<^verbatim>\<open>Error('fc.constantFrom expects at least one parameter')\<close> when it is called without a
    value, and otherwise builds the arbitrary that draws one of the values;
  \<^item> \<^verbatim>\<open>fc.assert\<close> runs the predicate on \<^verbatim>\<open>numRuns\<close> values drawn from the arbitrary, stops at
    the first run in which the predicate throws or returns \<^verbatim>\<open>false\<close>, and then throws a
    report of the failure; if no run fails it returns;
  \<^item> no seed is configured, so the random generator is seeded from the clock and
    \<^verbatim>\<open>Math.random\<close>: the numbers it yields are an input of the run. Here \<open>rng i\<close> is
    the number it yields in run \<open>i\<close>, and the value drawn is the one at index
    \<open>rng i mod length values\<close>.
  The generator itself is not modelled: it has a seed of 32 bits, so it yields only some
  of the streams \<open>rng\<close>. What holds for every \<open>rng\<close> holds for every seed; a stream
  given in an example stands for the seeds whose draws pass and fail in the same runs.
  After a failure fast-check shrinks the value and reports the shrunk one; shrinking does
  not change whether the run fails, and \<open>Failed v\<close> is the violation of the first failing
  draw. A predicate that never returns (\<open>None\<close>) leaves the run without an outcome.
\<close>

definition constantFrom :: "'a list \<Rightarrow> error + 'a list" where
  "constantFrom values = (if values = [] then Inl ConstantFromEmpty else Inr values)"

fun runs ::
  "'a list \<Rightarrow> ('a \<Rightarrow> (violation + bool) option) \<Rightarrow> (nat \<Rightarrow> nat) \<Rightarrow> nat \<Rightarrow> nat \<Rightarrow> outcome option"
where
  "runs values predicate rng i 0 = Some Passed"
| "runs values predicate rng i (Suc n) =
     (case predicate (values ! (rng i mod length values)) of
        None \<Rightarrow> None
      | Some (Inl v) \<Rightarrow> Some (Failed v)
      | Some (Inr ok) \<Rightarrow>
          if ok then runs values predicate rng (Suc i) n else Some (Failed ReturnedFalse))"

definition fc_assert ::
  "'a list \<Rightarrow> ('a \<Rightarrow> (violation + bool) option) \<Rightarrow> nat \<Rightarrow> (nat \<Rightarrow> nat) \<Rightarrow> outcome option"
where
  "fc_assert universe predicate numRuns rng =
     (case constantFrom universe of
        Inl e \<Rightarrow> Some (Threw e)
      | Inr values \<Rightarrow> runs values predicate rng 0 numRuns)"

text \<open>\<^verbatim>\<open>String.prototype.startsWith\<close>, \<^verbatim>\<open>endsWith\<close> and \<^verbatim>\<open>includes\<close> (\<open>includes_sub\<close>: the name is a keyword).\<close>

definition startsWith :: "string \<Rightarrow> string \<Rightarrow> bool" where
  "startsWith s pre = (take (length pre) s = pre)"

definition endsWith :: "string \<Rightarrow> string \<Rightarrow> bool" where
  "endsWith s suf = (length suf \<le> length s \<and> drop (length s - length suf) s = suf)"

fun includes_sub :: "string \<Rightarrow> string \<Rightarrow> bool" where
  "includes_sub [] sub = (sub = [])"
| "includes_sub (c # s) sub = (startsWith (c # s) sub \<or> includes_sub s sub)"

section \<open>Property 4: custom properties of the style sheets\<close>

text \<open>
  \<^verbatim>\<open>const cssVariableRegex = /--([\w-]+)\s*:/g\<close>, and the loop that adds every captured
  name to the set \<^verbatim>\<open>sourceVariables\<close>; \<^verbatim>\<open>Array.from(sourceVariables)\<close> lists the set in
  insertion order.
\<close>

definition is_name :: "char \<Rightarrow> bool" where
  "is_name c = (is_word c \<or> c = CHR ''-'')"

definition cssVariableRegex :: regex where
  "cssVariableRegex =
     lit ''--'' @ [GroupOpen, Plus Greedy is_name, GroupClose,
                   Star Greedy is_space, One (is_chr CHR '':'')]"

definition extractVariables :: "string \<Rightarrow> string list option" where
  "extractVariables css = exec_loop set_add cssVariableRegex True css []"

text \<open>\<^verbatim>\<open>const sourceCss = sourceAppCss + '\n' + sourceIndexCss\<close>\<close>

definition sourceCss :: "string \<Rightarrow> string \<Rightarrow> string" where
  "sourceCss sourceAppCss sourceIndexCss = sourceAppCss @ [CHR 0x0A] @ sourceIndexCss"

text \<open>
  \<^verbatim>\<open>new RegExp(`--${cssVariable}\\s*:`, 'g').test(targetCss)\<close>. The names put into the
  pattern are captures of \<^verbatim>\<open>[\w-]+\<close>: word characters and hyphens, which stand for
  themselves in a pattern.
\<close>

definition variablePattern :: "string \<Rightarrow> regex" where
  "variablePattern cssVariable =
     lit ''--'' @ lit cssVariable @ [Star Greedy is_space, One (is_chr CHR '':'')]"

definition existsInTarget :: "string \<Rightarrow> string \<Rightarrow> bool" where
  "existsInTarget targetCss cssVariable = test (variablePattern cssVariable) targetCss"

text \<open>
  The match of \<^verbatim>\<open>cssVariableRegex\<close> at a position, in closed form: two hyphens, the longest
  run of name characters, the longest run of white space, a colon (lemma \<open>bt_cssVariableRegex\<close> below).
\<close>

definition after_name :: "string \<Rightarrow> string \<Rightarrow> (string \<times> string) option" where
  "after_name name s =
     (case dropWhile is_space s of
        [] \<Rightarrow> None
      | c # rest \<Rightarrow> if c = CHR '':'' then Some (name, rest) else None)"

definition declaration_at :: "string \<Rightarrow> (string \<times> string) option" where
  "declaration_at s =
     (case s of
        a # b # t \<Rightarrow>
          if a = CHR ''-'' \<and> b = CHR ''-'' \<and> takeWhile is_name t \<noteq> []
          then after_name (takeWhile is_name t) (dropWhile is_name t)
          else None
      | _ \<Rightarrow> None)"

text \<open>
  Two texts joined: a match of \<^verbatim>\<open>cssVariableRegex\<close> that takes the last character \<open>x\<close> of the
  first and the first character \<open>y\<close> of the second has \<open>x\<close> in the hyphens, the name or the
  white space and \<open>y\<close> in what may follow there. \<open>no_straddle x y\<close> excludes it.
\<close>

definition no_straddle :: "char \<Rightarrow> char \<Rightarrow> bool" where
  "no_straddle x y =
     (\<not> (is_name x \<and> (is_name y \<or> is_space y \<or> y = CHR '':'')) \<and>
      \<not> (is_space x \<and> (is_space y \<or> y = CHR '':'')))"

definition junction :: "string \<Rightarrow> string \<Rightarrow> bool" where
  "junction a b = (a = [] \<or> b = [] \<or> no_straddle (last a) (hd b))"

abbreviation followed_by :: "string \<Rightarrow> (string \<times> string) option \<Rightarrow> (string \<times> string) option" where
  "followed_by b \<equiv> map_option (\<lambda>(g, rest). (g, rest @ b))"


text \<open>
  A text that does not end inside the head of a declaration: before its trailing white
  space it is empty or ends with a character that is neither a word character nor a
  hyphen (a closing brace or a semicolon, say). \<open>declared\<close> is the set of captured names.
\<close>

definition clean_end :: "string \<Rightarrow> bool" where
  "clean_end a =
     (case dropWhile is_space (rev a) of [] \<Rightarrow> True | x # left \<Rightarrow> \<not> is_name x)"

definition declared :: "string \<Rightarrow> string set" where
  "declared css = set (scan_all cssVariableRegex True css)"

text \<open>
  The predicate of Property 4, and the test: the names of the source style sheets are
  extracted first, then sampled.
\<close>

definition property4_body :: "string \<Rightarrow> string \<Rightarrow> violation + bool" where
  "property4_body targetCss cssVariable =
     (if existsInTarget targetCss cssVariable then Inr True
      else Inl (Unpreserved cssVariable))"

definition property4 ::
  "string \<Rightarrow> string \<Rightarrow> string \<Rightarrow> (nat \<Rightarrow> nat) \<Rightarrow> outcome option" where
  "property4 sourceAppCss sourceIndexCss targetCss rng =
     (case extractVariables (sourceCss sourceAppCss sourceIndexCss) of
        None \<Rightarrow> None
      | Some sourceVariablesArray \<Rightarrow>
          fc_assert sourceVariablesArray (\<lambda>v. Some (property4_body targetCss v)) 100 rng)"

text \<open>
  In words: the target text contains two hyphens, the name, white space or none, and a
  colon.
\<close>

definition contains_declaration :: "string \<Rightarrow> string \<Rightarrow> bool" where
  "contains_declaration targetCss name =
     (\<exists>pre ws post.
        targetCss = pre @ ''--'' @ name @ ws @ '':'' @ post \<and> list_all is_space ws)"

section \<open>Property 3: the dependency manifests\<close>

text \<open>
  A parsed \<^verbatim>\<open>package.json\<close>: its \<^verbatim>\<open>dependencies\<close>, when it has the key, map package
  names to version specifiers, in the order of the file (\<^verbatim>\<open>Object.keys\<close> lists them so).
\<close>

record packageJson =
  dependencies :: "(string \<times> string) list option"

text \<open>\<^verbatim>\<open>packageJson.dependencies || {}\<close>\<close>

definition deps_or_empty :: "packageJson \<Rightarrow> (string \<times> string) list" where
  "deps_or_empty p = (case dependencies p of None \<Rightarrow> [] | Some d \<Rightarrow> d)"

definition sourceRadixPackages :: "packageJson \<Rightarrow> string list" where
  "sourceRadixPackages sourcePackageJson =
     filter (\<lambda>pkg. startsWith pkg ''@radix-ui/'') (map fst (deps_or_empty sourcePackageJson))"

text \<open>
  The predicate. \<^verbatim>\<open>sourcePackageJson.dependencies[radixPackage]\<close> is a \<^verbatim>\<open>TypeError\<close> when
  the source has no \<^verbatim>\<open>dependencies\<close>, and \<^verbatim>\<open>expect(sourceVersion).toBeDefined()\<close> fails when
  the name is not a key there; neither happens for a name drawn from
  \<open>sourceRadixPackages\<close>. A key of the target has a version (the manifest is parsed JSON),
  so \<^verbatim>\<open>expect(targetVersion).toBeDefined()\<close> holds where it is reached.
\<close>

definition property3_body :: "packageJson \<Rightarrow> packageJson \<Rightarrow> string \<Rightarrow> violation + bool" where
  "property3_body sourcePackageJson targetPackageJson radixPackage =
     (let targetDeps = deps_or_empty targetPackageJson in
      case map_of targetDeps radixPackage of
        None \<Rightarrow> Inl (AbsentInTarget radixPackage)
      | Some targetVersion \<Rightarrow>
          (case dependencies sourcePackageJson of
             None \<Rightarrow> Inl (Uncaught TypeError)
           | Some sourceDeps \<Rightarrow>
               (case map_of sourceDeps radixPackage of
                  None \<Rightarrow> Inl (VersionUndefined Source radixPackage)
                | Some sourceVersion \<Rightarrow>
                    if \<not> isValidVersion sourceVersion
                    then Inl (InvalidVersionSyntax Source sourceVersion)
                    else if \<not> isValidVersion targetVersion
                    then Inl (InvalidVersionSyntax Target targetVersion)
                    else Inr True)))"

definition property3 :: "packageJson \<Rightarrow> packageJson \<Rightarrow> (nat \<Rightarrow> nat) \<Rightarrow> outcome option" where
  "property3 sourcePackageJson targetPackageJson rng =
     fc_assert (sourceRadixPackages sourcePackageJson)
       (\<lambda>pkg. Some (property3_body sourcePackageJson targetPackageJson pkg)) 100 rng"

text \<open>
  An example: a source manifest with thirty Radix packages, and a target manifest with all
  of them but the last.
\<close>

definition radix_names :: "string list" where
  "radix_names = map (\<lambda>n. ''@radix-ui/react-'' @ n)
     [''accordion'', ''alert-dialog'', ''aspect-ratio'', ''avatar'', ''checkbox'',
      ''collapsible'', ''context-menu'', ''dialog'', ''dropdown-menu'', ''hover-card'',
      ''label'', ''menubar'', ''navigation-menu'', ''popover'', ''progress'',
      ''radio-group'', ''scroll-area'', ''select'', ''separator'', ''slider'',
      ''slot'', ''switch'', ''tabs'', ''toast'', ''toggle'',
      ''toggle-group'', ''toolbar'', ''tooltip'', ''visually-hidden'', ''form'']"

definition thirty_source :: packageJson where
  "thirty_source =
     \<lparr>dependencies = Some ((''react'', ''^18.2.0'') # map (\<lambda>n. (n, ''^1.0.0'')) radix_names)\<rparr>"

definition thirty_target :: packageJson where
  "thirty_target =
     \<lparr>dependencies =
        Some ((''react'', ''^19.0.0'') # map (\<lambda>n. (n, ''^1.1.2'')) (butlast radix_names))\<rparr>"

section \<open>Paths\<close>

text \<open>
  The functions of Node's \<^verbatim>\<open>path\<close> module that the tests call, in their POSIX form.
  \<open>split_path\<close> cuts a path at every slash; \<open>join_slash\<close> puts slashes back between the
  segments.
\<close>

fun split_path :: "string \<Rightarrow> string list" where
  "split_path [] = [[]]"
| "split_path (c # s) =
     (if c = CHR ''/'' then [] # split_path s
      else (case split_path s of
              [] \<Rightarrow> [[c]]
            | seg # segs \<Rightarrow> (c # seg) # segs))"

fun join_slash :: "string list \<Rightarrow> string" where
  "join_slash [] = []"
| "join_slash [seg] = seg"
| "join_slash (seg # segs) = seg @ ''/'' @ join_slash segs"

text \<open>
  \<^verbatim>\<open>normalizeString(path, allowAboveRoot)\<close> goes through the segments and keeps the
  segments of the result: an empty segment and \<^verbatim>\<open>.\<close> are dropped; \<^verbatim>\<open>..\<close> removes the last
  segment of the result unless there is none or it is \<^verbatim>\<open>..\<close> itself, and is then kept when
  \<^verbatim>\<open>allowAboveRoot\<close> holds and dropped otherwise.
\<close>

definition segment_step :: "bool \<Rightarrow> string list \<Rightarrow> string \<Rightarrow> string list" where
  "segment_step allowAboveRoot res seg =
     (if seg = [] \<or> seg = ''.'' then res
      else if seg = ''..'' then
        (if res \<noteq> [] \<and> last res \<noteq> ''..'' then butlast res
         else if allowAboveRoot then res @ [''..''] else res)
      else res @ [seg])"

definition normalizeString :: "string \<Rightarrow> bool \<Rightarrow> string" where
  "normalizeString path allowAboveRoot =
     join_slash (foldl (segment_step allowAboveRoot) [] (split_path path))"

text \<open>\<^verbatim>\<open>path.normalize\<close> (the name \<open>normalize\<close> is taken).\<close>

definition normalize_path :: "string \<Rightarrow> string" where
  "normalize_path path =
     (if path = [] then ''.''
      else
        (let isAbsolute = (hd path = CHR ''/'');
             trailingSeparator = (last path = CHR ''/'');
             p = normalizeString path (\<not> isAbsolute)
         in if p = [] then (if isAbsolute then ''/'' else if trailingSeparator then ''./'' else ''.'')
            else (if isAbsolute then ''/'' else []) @ p @
                 (if trailingSeparator then ''/'' else [])))"

text \<open>\<^verbatim>\<open>path.join(...args)\<close>: the non-empty arguments, joined by slashes, normalised.\<close>

definition join :: "string list \<Rightarrow> string" where
  "join args =
     (let parts = filter (\<lambda>arg. arg \<noteq> []) args
      in if parts = [] then ''.'' else normalize_path (join_slash parts))"

text \<open>
  \<^verbatim>\<open>path.resolve(path)\<close> of one argument: a relative path is resolved against the working
  directory \<open>cwd\<close> (an absolute path); the result is absolute and normalised, without a
  trailing slash.
\<close>

definition resolve :: "string \<Rightarrow> string \<Rightarrow> string" where
  "resolve cwd path =
     (let resolvedPath =
            (if path \<noteq> [] \<and> hd path = CHR ''/'' then path else cwd @ ''/'' @ path)
      in ''/'' @ normalizeString resolvedPath False)"

text \<open>
  \<^verbatim>\<open>path.relative(from, to)\<close>. After resolving both paths it compares them character by
  character from index 1: \<open>common_prefix\<close> is that loop and yields the index \<open>i\<close> where it
  stopped and \<^verbatim>\<open>lastCommonSep\<close> (\<open>-1\<close> when no common slash was seen).
\<close>

fun common_prefix :: "string \<Rightarrow> string \<Rightarrow> nat \<Rightarrow> int \<Rightarrow> nat \<times> int" where
  "common_prefix (f # fs) (t # ts) i lastCommonSep =
     (if f \<noteq> t then (i, lastCommonSep)
      else common_prefix fs ts (Suc i) (if f = CHR ''/'' then int i else lastCommonSep))"
| "common_prefix fs ts i lastCommonSep = (i, lastCommonSep)"

text \<open>
  The last loop of \<^verbatim>\<open>relative\<close> appends one \<^verbatim>\<open>..\<close> for the end of \<^verbatim>\<open>from\<close> and one for every
  slash of \<^verbatim>\<open>from\<close> after the common part.
\<close>

definition ups :: "string \<Rightarrow> string" where
  "ups rest =
     join_slash (replicate (Suc (length (filter (\<lambda>c. c = CHR ''/'') rest))) ''..'')"

definition relative :: "string \<Rightarrow> string \<Rightarrow> string \<Rightarrow> string" where
  "relative cwd from to =
     (if from = to then []
      else
        (let from = resolve cwd from; to = resolve cwd to in
         if from = to then []
         else
           (let fromLen = length from - 1;
                toLen = length to - 1;
                len = min fromLen toLen;
                (i, sep) = common_prefix (drop 1 from) (drop 1 to) 0 (- 1)
            in if i = len \<and> toLen > len \<and> to ! (1 + i) = CHR ''/'' then drop (1 + i + 1) to
               else if i = len \<and> toLen > len \<and> i = 0 then drop (1 + i) to
               else
                 (let lastCommonSep =
                        (if i = len \<and> \<not> toLen > len \<and> fromLen > len then
                           (if from ! (1 + i) = CHR ''/'' then int i
                            else if i = 0 then 0 else sep)
                         else sep)
                  in ups (drop (nat (1 + lastCommonSep + 1)) from) @
                     drop (nat (1 + lastCommonSep)) to))))"

text \<open>
  \<^verbatim>\<open>path.basename(path)\<close>: the trailing slashes are skipped, and the characters after the
  last slash that is left are returned.
\<close>

definition basename :: "string \<Rightarrow> string" where
  "basename path =
     rev (takeWhile (\<lambda>c. c \<noteq> CHR ''/'') (dropWhile (\<lambda>c. c = CHR ''/'') (rev path)))"

text \<open>
  \<^verbatim>\<open>path.extname(path)\<close>: from the last dot of the last component to its end; the empty
  string when the component has no dot, begins with its only dot, or is \<^verbatim>\<open>..\<close>.
\<close>

definition extname :: "string \<Rightarrow> string" where
  "extname path =
     (let component = basename path;
          ext = rev (takeWhile (\<lambda>c. c \<noteq> CHR ''.'') (rev component))
      in if CHR ''.'' \<notin> set component then []
         else if length ext + 1 = length component \<or> component = ''..'' then []
         else ''.'' @ ext)"

text \<open>
  A file name, as \<^verbatim>\<open>readdirSync\<close> lists it: not empty, without a slash, and neither \<^verbatim>\<open>.\<close> nor
  \<^verbatim>\<open>..\<close>. \<open>abs_path\<close> is the absolute path with the given segments, and \<open>stack\<close> the
  segments that \<^verbatim>\<open>normalizeString\<close> keeps of an absolute path.
\<close>

definition valid_name :: "string \<Rightarrow> bool" where
  "valid_name n = (n \<noteq> [] \<and> CHR ''/'' \<notin> set n \<and> n \<noteq> ''.'' \<and> n \<noteq> ''..'')"

definition abs_path :: "string list \<Rightarrow> string" where
  "abs_path segs = concat (map (\<lambda>seg. CHR ''/'' # seg) segs)"

definition stack :: "string \<Rightarrow> string list" where
  "stack path = foldl (segment_step False) [] (split_path path)"

section \<open>The file system and the walker\<close>

text \<open>
  The tests read one file system: a tree of directories and files (no symbolic links).
  \<open>lookup\<close> follows the segments of a path from the root; the paths that reach the file
  system come out of \<open>join\<close>, possibly with an extension appended, so they are absolute
  and have no \<^verbatim>\<open>.\<close> or \<^verbatim>\<open>..\<close> segment.
\<close>

datatype node = File string | Dir "(string \<times> node) list"

fun lookup :: "node \<Rightarrow> string list \<Rightarrow> node option" where
  "lookup n [] = Some n"
| "lookup (File content) (seg # segs) = None"
| "lookup (Dir entries) (seg # segs) =
     (case map_of entries seg of None \<Rightarrow> None | Some child \<Rightarrow> lookup child segs)"

definition segments :: "string \<Rightarrow> string list" where
  "segments path = filter (\<lambda>seg. seg \<noteq> []) (split_path path)"

definition is_dir :: "node \<Rightarrow> bool" where
  "is_dir n = (case n of Dir entries \<Rightarrow> True | File content \<Rightarrow> False)"

text \<open>
  \<^verbatim>\<open>existsSync(path)\<close> never throws. A path with a trailing slash names a directory.
\<close>

definition existsSync :: "node \<Rightarrow> string \<Rightarrow> bool" where
  "existsSync root path =
     (case lookup root (segments path) of
        None \<Rightarrow> False
      | Some n \<Rightarrow> path \<noteq> [] \<and> (last path = CHR ''/'' \<longrightarrow> is_dir n))"

text \<open>
  \<^verbatim>\<open>readFileSync(path, 'utf-8')\<close> gives the content of a file, and throws \<^verbatim>\<open>EISDIR\<close> on a
  directory, \<^verbatim>\<open>ENOTDIR\<close> when the path goes through a file or names a file with a trailing
  slash, and \<^verbatim>\<open>ENOENT\<close> when nothing is there.
\<close>

fun through_file :: "node \<Rightarrow> string list \<Rightarrow> bool" where
  "through_file n [] = False"
| "through_file (File content) (seg # segs) = True"
| "through_file (Dir entries) (seg # segs) =
     (case map_of entries seg of None \<Rightarrow> False | Some child \<Rightarrow> through_file child segs)"

definition readFileSync :: "node \<Rightarrow> string \<Rightarrow> error + string" where
  "readFileSync root path =
     (if path = [] then Inl (ENOENT path)
      else case lookup root (segments path) of
        None \<Rightarrow>
          if through_file root (segments path) then Inl (ENOTDIR path) else Inl (ENOENT path)
      | Some (Dir entries) \<Rightarrow> Inl (EISDIR path)
      | Some (File content) \<Rightarrow>
          if last path = CHR ''/'' then Inl (ENOTDIR path) else Inr content)"

text \<open>
  \<^verbatim>\<open>getAllFiles(dirPath, arrayOfFiles)\<close>: for every name that \<^verbatim>\<open>readdirSync(dirPath)\<close> lists,
  in its order, \<^verbatim>\<open>filePath = join(dirPath, file)\<close> is walked if it is a directory and pushed
  otherwise. The walker is given the entries of the directory at \<open>dirPath\<close>.
\<close>

fun getAllFiles :: "string \<Rightarrow> (string \<times> node) list \<Rightarrow> string list \<Rightarrow> string list"
  and visit :: "string \<Rightarrow> node \<Rightarrow> string list \<Rightarrow> string list" where
  "getAllFiles dirPath [] arrayOfFiles = arrayOfFiles"
| "getAllFiles dirPath ((file, child) # files) arrayOfFiles =
     getAllFiles dirPath files (visit (join [dirPath, file]) child arrayOfFiles)"
| "visit filePath (Dir entries) arrayOfFiles = getAllFiles filePath entries arrayOfFiles"
| "visit filePath (File content) arrayOfFiles = arrayOfFiles @ [filePath]"

text \<open>
  \<^verbatim>\<open>existsSync(dir) ? getAllFiles(dir) : []\<close>. \<^verbatim>\<open>readdirSync\<close> throws when \<open>dir\<close> exists and is
  not a directory.
\<close>

definition files_under :: "node \<Rightarrow> string \<Rightarrow> error + string list" where
  "files_under root dir =
     (if existsSync root dir then
        (case lookup root (segments dir) of
           Some (Dir entries) \<Rightarrow> Inr (getAllFiles dir entries [])
         | _ \<Rightarrow> Inl (ENOTDIR dir))
      else Inr [])"

section \<open>Property 1: every source component file exists in the target\<close>

text \<open>
  \<open>dirname\<close> is \<^verbatim>\<open>__dirname\<close>, the absolute path of the directory of the test file; the
  target project is its parent and the source project the parent of that.
\<close>

definition sourceRoot :: "string \<Rightarrow> string" where
  "sourceRoot dirname = join [dirname, ''../../'']"

definition targetRoot :: "string \<Rightarrow> string" where
  "targetRoot dirname = join [dirname, ''../'']"

definition sourceComponentsDir :: "string \<Rightarrow> string" where
  "sourceComponentsDir dirname = join [sourceRoot dirname, ''src/components'']"

definition targetPath :: "string \<Rightarrow> string \<Rightarrow> string \<Rightarrow> string" where
  "targetPath cwd dirname sourceFilePath =
     join [targetRoot dirname, ''src/components'',
           relative cwd (sourceComponentsDir dirname) sourceFilePath]"

definition property1_body :: "node \<Rightarrow> string \<Rightarrow> string \<Rightarrow> string \<Rightarrow> violation + bool" where
  "property1_body root cwd dirname sourceFilePath =
     (if includes_sub sourceFilePath ''/src/components/'' then
        (let targetPath = targetPath cwd dirname sourceFilePath in
         if \<not> existsSync root targetPath then Inl (MissingInTarget targetPath)
         else if basename targetPath \<noteq> basename sourceFilePath
         then Inl (NameDiffers targetPath sourceFilePath)
         else if extname targetPath \<noteq> extname sourceFilePath
         then Inl (ExtensionDiffers targetPath sourceFilePath)
         else Inr True)
      else Inr True)"

definition property1 :: "node \<Rightarrow> string \<Rightarrow> string \<Rightarrow> (nat \<Rightarrow> nat) \<Rightarrow> outcome option" where
  "property1 root cwd dirname rng =
     (case files_under root (sourceComponentsDir dirname) of
        Inl e \<Rightarrow> Some (Threw e)
      | Inr allSourceFiles \<Rightarrow>
          fc_assert allSourceFiles (\<lambda>f. Some (property1_body root cwd dirname f)) 100 rng)"

section \<open>Property 2: the imports of the target components resolve\<close>

text \<open>\<^verbatim>\<open>const importRegex = /import\s+.*?\s+from\s+['"](.+?)['"]/g\<close>\<close>

definition is_quote :: "char \<Rightarrow> bool" where
  "is_quote c = (c = CHR 0x27 \<or> c = CHR 0x22)"

definition importRegex :: regex where
  "importRegex =
     lit ''import'' @ [Plus Greedy is_space, Star Lazy is_dot, Plus Greedy is_space] @
     lit ''from'' @ [Plus Greedy is_space, One is_quote,
                     GroupOpen, Plus Lazy is_dot, GroupClose, One is_quote]"

definition extractImports :: "string \<Rightarrow> string list option" where
  "extractImports content = exec_loop array_push importRegex True content []"

text \<open>
  \<^verbatim>\<open>String.prototype.replace(pattern, replacement)\<close> with a string pattern: the first
  occurrence is replaced.
\<close>

fun replace :: "string \<Rightarrow> string \<Rightarrow> string \<Rightarrow> string" where
  "replace [] pat rep = (if pat = [] then rep else [])"
| "replace (c # s) pat rep =
     (if startsWith (c # s) pat then rep @ drop (length pat) (c # s)
      else c # replace s pat rep)"

text \<open>
  The five paths tried for a candidate: the path itself, with \<^verbatim>\<open>.ts\<close> and \<^verbatim>\<open>.tsx\<close> appended,
  and \<^verbatim>\<open>index.ts\<close> and \<^verbatim>\<open>index.tsx\<close> inside it.
\<close>

definition resolves :: "node \<Rightarrow> string \<Rightarrow> bool" where
  "resolves root fullPath =
     (existsSync root fullPath \<or>
      existsSync root (fullPath @ ''.ts'') \<or>
      existsSync root (fullPath @ ''.tsx'') \<or>
      existsSync root (join [fullPath, ''index.ts'']) \<or>
      existsSync root (join [fullPath, ''index.tsx'']))"

text \<open>
  The candidate of an alias import and of a relative import, as the two branches of the
  check build it.
\<close>

definition alias_candidate :: "string \<Rightarrow> string \<Rightarrow> string" where
  "alias_candidate dirname importPath =
     join [targetRoot dirname, replace importPath ''@/'' ''src/'']"

definition relative_candidate :: "string \<Rightarrow> string \<Rightarrow> string" where
  "relative_candidate componentFile importPath =
     join [join [componentFile, ''..''], importPath]"

text \<open>
  The callback of \<^verbatim>\<open>imports.forEach\<close>: it returns at once for an external package and for
  an import that begins with \<^verbatim>\<open>@/assets\<close>, and otherwise expects the candidate to resolve.
\<close>

definition check_import :: "node \<Rightarrow> string \<Rightarrow> string \<Rightarrow> string \<Rightarrow> violation + unit" where
  "check_import root dirname componentFile importPath =
     (if \<not> startsWith importPath ''.'' \<and> \<not> startsWith importPath ''@/'' then Inr ()
      else if startsWith importPath ''@/assets'' then Inr ()
      else if startsWith importPath ''@/'' then
        (if resolves root (alias_candidate dirname importPath) then Inr ()
         else Inl (UnresolvedImport componentFile importPath))
      else if startsWith importPath ''.'' then
        (if resolves root (relative_candidate componentFile importPath) then Inr ()
         else Inl (UnresolvedImport componentFile importPath))
      else Inr ())"

fun forEach :: "('a \<Rightarrow> violation + unit) \<Rightarrow> 'a list \<Rightarrow> violation + unit" where
  "forEach f [] = Inr ()"
| "forEach f (x # xs) = (case f x of Inl v \<Rightarrow> Inl v | Inr u \<Rightarrow> forEach f xs)"

definition property2_body :: "node \<Rightarrow> string \<Rightarrow> string \<Rightarrow> (violation + bool) option" where
  "property2_body root dirname componentFile =
     (case readFileSync root componentFile of
        Inl e \<Rightarrow> Some (Inl (Uncaught e))
      | Inr content \<Rightarrow>
          (case extractImports content of
             None \<Rightarrow> None
           | Some imports \<Rightarrow>
               (case forEach (check_import root dirname componentFile) imports of
                  Inl v \<Rightarrow> Some (Inl v)
                | Inr u \<Rightarrow> Some (Inr True))))"

definition targetComponentsDir :: "string \<Rightarrow> string" where
  "targetComponentsDir dirname = join [targetRoot dirname, ''src/components'']"

definition property2 :: "node \<Rightarrow> string \<Rightarrow> (nat \<Rightarrow> nat) \<Rightarrow> outcome option" where
  "property2 root dirname rng =
     (case files_under root (targetComponentsDir dirname) of
        Inl e \<Rightarrow> Some (Threw e)
      | Inr files \<Rightarrow>
          fc_assert
            (filter (\<lambda>f. endsWith f ''.tsx'' \<or> endsWith f ''.ts'') files)
            (property2_body root dirname) 100 rng)"

text \<open>
  In words: \<open>text\<close> is an import statement with the specifier \<open>ref\<close> when it is \<^verbatim>\<open>import\<close>,
  white space, a clause, white space, \<^verbatim>\<open>from\<close>, white space and the quoted specifier,
  where neither the clause nor the specifier has a line terminator and the specifier is
  not empty.
\<close>

definition import_statement :: "string \<Rightarrow> string \<Rightarrow> bool" where
  "import_statement text ref =
     (\<exists>ws1 clause ws2 ws3 q1 q2.
        text = ''import'' @ ws1 @ clause @ ws2 @ ''from'' @ ws3 @ [q1] @ ref @ [q2] \<and>
        ws1 \<noteq> [] \<and> list_all is_space ws1 \<and> list_all is_dot clause \<and>
        ws2 \<noteq> [] \<and> list_all is_space ws2 \<and>
        ws3 \<noteq> [] \<and> list_all is_space ws3 \<and>
        is_quote q1 \<and> ref \<noteq> [] \<and> list_all is_dot ref \<and> is_quote q2)"

text \<open>
  The references that the callback checks, and the candidate it builds for each.
\<close>

definition checked :: "string \<Rightarrow> bool" where
  "checked importPath =
     ((startsWith importPath ''.'' \<or> startsWith importPath ''@/'') \<and>
      \<not> startsWith importPath ''@/assets'')"

definition candidate :: "string \<Rightarrow> string \<Rightarrow> string \<Rightarrow> string" where
  "candidate dirname componentFile importPath =
     (if startsWith importPath ''@/'' then alias_candidate dirname importPath
      else relative_candidate componentFile importPath)"

text \<open>A well-formed tree: every entry of every directory has a file name.\<close>

fun wf_node :: "node \<Rightarrow> bool" and wf_entries :: "(string \<times> node) list \<Rightarrow> bool" where
  "wf_node (File content) = True"
| "wf_node (Dir entries) = wf_entries entries"
| "wf_entries [] = True"
| "wf_entries ((file, child) # files) = (valid_name file \<and> wf_node child \<and> wf_entries files)"

text \<open>The paths below the directory with the segments \<open>segs\<close>.\<close>

definition under :: "string list \<Rightarrow> string \<Rightarrow> bool" where
  "under segs p =
     (\<exists>names. names \<noteq> [] \<and> list_all valid_name names \<and> p = abs_path (segs @ names))"

text \<open>
  An example: the source project \<^verbatim>\<open>/proj\<close> with two component files, and the target project
  \<^verbatim>\<open>/proj/app\<close> inside it, to which one of them has been migrated; the tests are in
  \<^verbatim>\<open>/proj/app/tests\<close>.
\<close>

definition example_tree :: node where
  "example_tree =
     Dir [(''proj'', Dir [
       (''src'', Dir [(''components'', Dir [
          (''Navbar.tsx'', File ''import { Button } from \"./ui/button\"''),
          (''ui'', Dir [(''button.tsx'', File ''export const Button = 1'')])])]),
       (''app'', Dir [
          (''src'', Dir [(''components'', Dir [
             (''Navbar.tsx'', File ''import logo from \"@/assets/logo.svg\"''),
             (''Hero.tsx'',
              File ''import { Navbar } from \"@/components/Navbar\"\<newline>import { Button } from \"./ui/button\"'')])]),
          (''tests'', Dir [])])])]"

text \<open>Two trees without a source component: no components directory, and an empty one.\<close>

definition no_components :: node where
  "no_components = Dir [(''proj'', Dir [(''app'', Dir [(''tests'', Dir [])])])]"

definition empty_components :: node where
  "empty_components =
     Dir [(''proj'', Dir [(''src'', Dir [(''components'', Dir [])]),
                          (''app'', Dir [(''tests'', Dir [])])])]"

section \<open>The matcher finds a match exactly when there is one\<close>

lemma accepts_Star_skip: "accepts r st v \<Longrightarrow> accepts (Star q p # r) st v"
proof -
  assume "accepts r st v"
  then have "v = [] @ v \<and> list_all p [] \<and> accepts r (st \<and> ([]::string) = []) v" by simp
  then show ?thesis unfolding accepts.simps by blast
qed

lemma accepts_Star_take:
  assumes "p c" and "accepts (Star q p # r) False w"
  shows "accepts (Star q p # r) st (c # w)"
proof -
  from assms(2) obtain u v where uv: "w = u @ v" "list_all p u" "accepts r False v"
    by auto
  with assms(1) have "c # w = (c # u) @ v \<and> list_all p (c # u) \<and> accepts r (st \<and> c # u = []) v"
    by simp
  then show ?thesis unfolding accepts.simps by blast
qed

lemma accepts_Plus_take:
  assumes "p c" and "accepts (Star q p # r) False w"
  shows "accepts (Plus q p # r) st (c # w)"
proof -
  from assms(2) obtain u v where uv: "w = u @ v" "list_all p u" "accepts r False v"
    by auto
  with assms(1) have "c # w = (c # u) @ v \<and> c # u \<noteq> [] \<and> list_all p (c # u) \<and> accepts r False v"
    by simp
  then show ?thesis unfolding accepts.simps by blast
qed

lemma bt_sound: "bt r st cap s = Some (g, t) \<Longrightarrow> \<exists>w. s = w @ t \<and> accepts r st w"
proof (induction r st cap s arbitrary: g t rule: bt.induct)
  case (1 st cap s)
  then show ?case by simp
next
  case (2 r st cap s)
  then show ?case by (auto split: if_splits)
next
  case (3 r st cap s)
  then show ?case by auto
next
  case (4 r st cap s)
  then show ?case by auto
next
  case (5 p r st cap s)
  then show ?case by (fastforce split: list.splits if_splits)
next
  case (6 p r st cap s)
  then show ?case by (fastforce split: list.splits if_splits option.splits)
next
  case (7 p r st cap s)
  have skip: "\<exists>w. s = w @ t \<and> accepts (Star Greedy p # r) st w"
    if "\<exists>w. s = w @ t \<and> accepts r st w"
    using that accepts_Star_skip by blast
  show ?case
  proof (cases s)
    case Nil
    with 7 show ?thesis by (intro skip) simp
  next
    case (Cons c s')
    show ?thesis
    proof (cases "p c")
      case False
      with 7 Cons show ?thesis by (intro skip) simp
    next
      case True
      show ?thesis
      proof (cases "bt (Star Greedy p # r) False (push cap c) s'")
        case None
        with 7 Cons True show ?thesis by (intro skip) simp
      next
        case (Some m)
        with "7.prems" Cons True have "bt (Star Greedy p # r) False (push cap c) s' = Some (g, t)"
          by simp
        from "7.IH"(2)[OF Cons True this] obtain w
          where "s' = w @ t" "accepts (Star Greedy p # r) False w" by blast
        with True Cons have "s = (c # w) @ t \<and> accepts (Star Greedy p # r) st (c # w)"
          by (simp del: accepts.simps add: accepts_Star_take)
        then show ?thesis by blast
      qed
    qed
  qed
next
  case (8 p r st cap s)
  show ?case
  proof (cases "bt r st cap s")
    case (Some m)
    with 8 have "\<exists>w. s = w @ t \<and> accepts r st w" by simp
    then show ?thesis using accepts_Star_skip by blast
  next
    case None
    with "8.prems" obtain c s' where cs: "s = c # s'" "p c"
      and b: "bt (Star Lazy p # r) False (push cap c) s' = Some (g, t)"
      by (auto split: list.splits if_splits)
    from "8.IH"(2)[OF None cs b] obtain w
      where "s' = w @ t" "accepts (Star Lazy p # r) False w" by blast
    with cs have "s = (c # w) @ t \<and> accepts (Star Lazy p # r) st (c # w)"
      by (simp del: accepts.simps add: accepts_Star_take)
    then show ?thesis by blast
  qed
next
  case (9 q p r st cap s)
  from "9.prems" obtain c s' where cs: "s = c # s'" "p c"
    and b: "bt (Star q p # r) False (push cap c) s' = Some (g, t)"
    by (auto split: list.splits if_splits)
  from "9.IH"[OF cs b] obtain w
    where "s' = w @ t" "accepts (Star q p # r) False w" by blast
  with cs have "s = (c # w) @ t \<and> accepts (Plus q p # r) st (c # w)"
    by (simp del: accepts.simps add: accepts_Plus_take)
  then show ?case by blast
qed


lemma accepts_Star_cases:
  assumes "accepts (Star q p # r) st w"
  obtains (skip) "accepts r st w"
  | (take) c w' where "w = c # w'" "p c" "accepts (Star q p # r) False w'"
proof -
  from assms obtain u v where uv: "w = u @ v" "list_all p u" "accepts r (st \<and> u = []) v"
    by auto
  show thesis
  proof (cases u)
    case Nil
    with uv show thesis by (intro skip) simp
  next
    case (Cons c u')
    with uv have "u' @ v = u' @ v \<and> list_all p u' \<and> accepts r (False \<and> u' = []) v" by simp
    then have "accepts (Star q p # r) False (u' @ v)" unfolding accepts.simps by blast
    with Cons uv show thesis by (intro take[of c "u' @ v"]) simp_all
  qed
qed

lemma accepts_Plus_cases:
  assumes "accepts (Plus q p # r) st w"
  obtains c w' where "w = c # w'" "p c" "accepts (Star q p # r) False w'"
proof -
  from assms obtain u v where uv: "w = u @ v" "u \<noteq> []" "list_all p u" "accepts r False v"
    by auto
  then obtain c u' where cu: "u = c # u'" by (cases u) auto
  with uv have "u' @ v = u' @ v \<and> list_all p u' \<and> accepts r (False \<and> u' = []) v" by simp
  then have "accepts (Star q p # r) False (u' @ v)" unfolding accepts.simps by blast
  with cu uv show thesis by (intro that[of c "u' @ v"]) simp_all
qed

lemma bt_complete_aux:
  "accepts r st w \<Longrightarrow> s = w @ t \<Longrightarrow> \<exists>m. bt r st cap s = Some m"
proof (induction r st cap s arbitrary: w t rule: bt.induct)
  case (1 st cap s)
  then show ?case by simp
next
  case (2 r st cap s)
  then show ?case by auto
next
  case (3 r st cap s)
  then show ?case by auto
next
  case (4 r st cap s)
  then show ?case by auto
next
  case (5 p r st cap s)
  from "5.prems" obtain c w' where cw: "w = c # w'" "p c" "accepts r False w'" by auto
  with "5.prems" have s: "s = c # (w' @ t)" by simp
  from "5.IH"[OF s cw(2) cw(3) refl] s cw show ?case by simp
next
  case (6 p r st cap s)
  from "6.prems" consider "accepts r st w"
    | c w' where "w = c # w'" "p c" "accepts r False w'" by auto
  then show ?case
  proof cases
    case 1
    show ?thesis
    proof (cases s)
      case Nil
      with "6.IH"(1)[OF Nil 1 "6.prems"(2)] show ?thesis by simp
    next
      case (Cons c s')
      show ?thesis
      proof (cases "p c")
        case False
        with "6.IH"(4)[OF Cons False 1 "6.prems"(2)] Cons show ?thesis by simp
      next
        case True
        show ?thesis
        proof (cases "bt r False (push cap c) s'")
          case None
          with "6.IH"(3)[OF Cons True None 1 "6.prems"(2)] Cons True show ?thesis by simp
        next
          case (Some m)
          with Cons True show ?thesis by simp
        qed
      qed
    qed
  next
    case 2
    with "6.prems" have s: "s = c # (w' @ t)" by simp
    from "6.IH"(2)[OF s 2(2) 2(3) refl] obtain m
      where "bt r False (push cap c) (w' @ t) = Some m" by blast
    with 2 s show ?thesis by simp
  qed
next
  case (7 p r st cap s)
  from "7.prems"(1) show ?case
  proof (cases rule: accepts_Star_cases)
    case skip
    show ?thesis
    proof (cases s)
      case Nil
      with "7.IH"(1)[OF Nil skip "7.prems"(2)] show ?thesis by simp
    next
      case (Cons c s')
      show ?thesis
      proof (cases "p c")
        case False
        with "7.IH"(4)[OF Cons False skip "7.prems"(2)] Cons show ?thesis by simp
      next
        case True
        show ?thesis
        proof (cases "bt (Star Greedy p # r) False (push cap c) s'")
          case None
          with "7.IH"(3)[OF Cons True None skip "7.prems"(2)] Cons True show ?thesis by simp
        next
          case (Some m)
          with Cons True show ?thesis by simp
        qed
      qed
    qed
  next
    case (take c w')
    with "7.prems" have s: "s = c # (w' @ t)" by simp
    from "7.IH"(2)[OF s take(2) take(3) refl] obtain m
      where "bt (Star Greedy p # r) False (push cap c) (w' @ t) = Some m" by blast
    with take s show ?thesis by simp
  qed
next
  case (8 p r st cap s)
  from "8.prems"(1) show ?case
  proof (cases rule: accepts_Star_cases)
    case skip
    from "8.IH"(1)[OF skip "8.prems"(2)] show ?thesis by auto
  next
    case (take c w')
    show ?thesis
    proof (cases "bt r st cap s")
      case (Some m)
      then show ?thesis by simp
    next
      case None
      from take "8.prems" have s: "s = c # (w' @ t)" by simp
      from "8.IH"(2)[OF None s take(2) take(3) refl] obtain m
        where "bt (Star Lazy p # r) False (push cap c) (w' @ t) = Some m" by blast
      with take None s show ?thesis by simp
    qed
  qed
next
  case (9 q p r st cap s)
  from "9.prems"(1) obtain c w' where cw: "w = c # w'" "p c" "accepts (Star q p # r) False w'"
    by (rule accepts_Plus_cases)
  with "9.prems" have s: "s = c # (w' @ t)" by simp
  from "9.IH"[OF s cw(2) cw(3) refl] obtain m
    where "bt (Star q p # r) False (push cap c) (w' @ t) = Some m" by blast
  with cw s show ?case by simp
qed

lemma bt_complete: "accepts r st w \<Longrightarrow> \<exists>m. bt r st cap (w @ t) = Some m"
  using bt_complete_aux by blast

lemma bt_Some_iff:
  "(\<exists>m. bt r st cap s = Some m) \<longleftrightarrow> (\<exists>w t. s = w @ t \<and> accepts r st w)"
  using bt_sound bt_complete by (metis surj_pair)

section \<open>The scanning loop ends\<close>

lemma accepts_nonempty: "must_consume r \<Longrightarrow> accepts r st w \<Longrightarrow> w \<noteq> []"
  by (induction r arbitrary: st w rule: must_consume.induct) auto

lemma bt_shorter:
  assumes "must_consume r" and "bt r st cap s = Some (g, t)"
  shows "length t < length s"
proof -
  from bt_sound[OF assms(2)] obtain w where "s = w @ t" "accepts r st w" by blast
  with accepts_nonempty[OF assms(1)] show ?thesis by auto
qed

lemma exec_shorter:
  "must_consume r \<Longrightarrow> exec r st s = Some (g, t) \<Longrightarrow> length t < length s"
proof (induction s arbitrary: st)
  case Nil
  then show ?case using bt_shorter by fastforce
next
  case (Cons c s)
  show ?case
  proof (cases "bt r st (False, []) (c # s)")
    case None
    with Cons.prems have "exec r False s = Some (g, t)" by simp
    from Cons.IH[OF Cons.prems(1) this] show ?thesis by simp
  next
    case (Some m)
    with Cons.prems have "bt r st (False, []) (c # s) = Some (g, t)" by simp
    from bt_shorter[OF Cons.prems(1) this] show ?thesis .
  qed
qed

lemma exec_loop_scan_all:
  assumes "must_consume r"
  shows "exec_loop add r st s out = Some (foldl add out (scan_all r st s))"
proof (induction "length s" arbitrary: s st out rule: less_induct)
  case less
  show ?case
  proof (cases "exec r st s")
    case None
    then show ?thesis by (subst exec_loop.simps, subst scan_all.simps) simp
  next
    case (Some m)
    obtain g rest where m: "m = (g, rest)" by (cases m)
    from exec_shorter[OF assms] Some m have lt: "length rest < length s" by blast
    have "exec_loop add r st s out = exec_loop add r False rest (add out g)"
      using Some m lt by (subst exec_loop.simps) simp
    also have "\<dots> = Some (foldl add (add out g) (scan_all r False rest))"
      by (rule less[OF lt])
    also have "foldl add (add out g) (scan_all r False rest) = foldl add out (scan_all r st s)"
      using Some m lt by (subst (2) scan_all.simps) simp
    finally show ?thesis .
  qed
qed

section \<open>What the matcher captures\<close>

lemma matches_Star_skip: "matches r st cap v cap' \<Longrightarrow> matches (Star q p # r) st cap v cap'"
proof -
  assume "matches r st cap v cap'"
  then have "v = [] @ v \<and> list_all p [] \<and> matches r (st \<and> ([]::string) = []) (foldl push cap []) v cap'"
    by simp
  then show ?thesis unfolding matches.simps by blast
qed

lemma matches_Star_take:
  assumes "p c" and "matches (Star q p # r) False (push cap c) w cap'"
  shows "matches (Star q p # r) st cap (c # w) cap'"
proof -
  from assms(2) obtain u v where uv: "w = u @ v" "list_all p u"
    "matches r False (foldl push (push cap c) u) v cap'"
    by auto
  with assms(1) have "c # w = (c # u) @ v \<and> list_all p (c # u) \<and>
      matches r (st \<and> c # u = []) (foldl push cap (c # u)) v cap'"
    by simp
  then show ?thesis unfolding matches.simps by blast
qed

lemma matches_Plus_take:
  assumes "p c" and "matches (Star q p # r) False (push cap c) w cap'"
  shows "matches (Plus q p # r) st cap (c # w) cap'"
proof -
  from assms(2) obtain u v where uv: "w = u @ v" "list_all p u"
    "matches r False (foldl push (push cap c) u) v cap'"
    by auto
  with assms(1) have "c # w = (c # u) @ v \<and> c # u \<noteq> [] \<and> list_all p (c # u) \<and>
      matches r False (foldl push cap (c # u)) v cap'"
    by simp
  then show ?thesis unfolding matches.simps by blast
qed

lemma bt_matches:
  "bt r st cap s = Some (g, t) \<Longrightarrow> \<exists>w cap'. s = w @ t \<and> matches r st cap w cap' \<and> g = snd cap'"
proof (induction r st cap s arbitrary: g t rule: bt.induct)
  case (1 st cap s)
  then show ?case by simp
next
  case (2 r st cap s)
  then show ?case by (auto split: if_splits)
next
  case (3 r st cap s)
  then show ?case by auto
next
  case (4 r st cap s)
  then show ?case by auto
next
  case (5 p r st cap s)
  from "5.prems" obtain c s' where cs: "s = c # s'" "p c"
    and b: "bt r False (push cap c) s' = Some (g, t)"
    by (auto split: list.splits if_splits)
  from "5.IH"[OF cs b] obtain w cap' where
    "s' = w @ t" "matches r False (push cap c) w cap'" "g = snd cap'" by blast
  with cs have "s = (c # w) @ t \<and> matches (One p # r) st cap (c # w) cap' \<and> g = snd cap'"
    by simp
  then show ?case by blast
next
  case (6 p r st cap s)
  have skip: "\<exists>w cap'. s = w @ t \<and> matches (Opt p # r) st cap w cap' \<and> g = snd cap'"
    if "\<exists>w cap'. s = w @ t \<and> matches r st cap w cap' \<and> g = snd cap'"
    using that by auto
  show ?case
  proof (cases s)
    case Nil
    with 6 show ?thesis by (intro skip) simp
  next
    case (Cons c s')
    show ?thesis
    proof (cases "p c")
      case False
      with 6 Cons show ?thesis by (intro skip) simp
    next
      case True
      show ?thesis
      proof (cases "bt r False (push cap c) s'")
        case None
        with 6 Cons True show ?thesis by (intro skip) simp
      next
        case (Some m)
        with "6.prems" Cons True have b: "bt r False (push cap c) s' = Some (g, t)" by simp
        from "6.IH"(2)[OF Cons True b] obtain w cap' where
          "s' = w @ t" "matches r False (push cap c) w cap'" "g = snd cap'" by blast
        with True Cons have
          "s = (c # w) @ t \<and> matches (Opt p # r) st cap (c # w) cap' \<and> g = snd cap'" by simp
        then show ?thesis by blast
      qed
    qed
  qed
next
  case (7 p r st cap s)
  have skip: "\<exists>w cap'. s = w @ t \<and> matches (Star Greedy p # r) st cap w cap' \<and> g = snd cap'"
    if "\<exists>w cap'. s = w @ t \<and> matches r st cap w cap' \<and> g = snd cap'"
    using that matches_Star_skip by blast
  show ?case
  proof (cases s)
    case Nil
    with 7 show ?thesis by (intro skip) simp
  next
    case (Cons c s')
    show ?thesis
    proof (cases "p c")
      case False
      with 7 Cons show ?thesis by (intro skip) simp
    next
      case True
      show ?thesis
      proof (cases "bt (Star Greedy p # r) False (push cap c) s'")
        case None
        with 7 Cons True show ?thesis by (intro skip) simp
      next
        case (Some m)
        with "7.prems" Cons True have b: "bt (Star Greedy p # r) False (push cap c) s' = Some (g, t)"
          by simp
        from "7.IH"(2)[OF Cons True b] obtain w cap' where
          "s' = w @ t" "matches (Star Greedy p # r) False (push cap c) w cap'" "g = snd cap'"
          by blast
        with True Cons have
          "s = (c # w) @ t \<and> matches (Star Greedy p # r) st cap (c # w) cap' \<and> g = snd cap'"
          by (simp del: matches.simps add: matches_Star_take)
        then show ?thesis by blast
      qed
    qed
  qed
next
  case (8 p r st cap s)
  show ?case
  proof (cases "bt r st cap s")
    case (Some m)
    with 8 have "\<exists>w cap'. s = w @ t \<and> matches r st cap w cap' \<and> g = snd cap'" by simp
    then show ?thesis using matches_Star_skip by blast
  next
    case None
    with "8.prems" obtain c s' where cs: "s = c # s'" "p c"
      and b: "bt (Star Lazy p # r) False (push cap c) s' = Some (g, t)"
      by (auto split: list.splits if_splits)
    from "8.IH"(2)[OF None cs b] obtain w cap' where
      "s' = w @ t" "matches (Star Lazy p # r) False (push cap c) w cap'" "g = snd cap'" by blast
    with cs have
      "s = (c # w) @ t \<and> matches (Star Lazy p # r) st cap (c # w) cap' \<and> g = snd cap'"
      by (simp del: matches.simps add: matches_Star_take)
    then show ?thesis by blast
  qed
next
  case (9 q p r st cap s)
  from "9.prems" obtain c s' where cs: "s = c # s'" "p c"
    and b: "bt (Star q p # r) False (push cap c) s' = Some (g, t)"
    by (auto split: list.splits if_splits)
  from "9.IH"[OF cs b] obtain w cap' where
    "s' = w @ t" "matches (Star q p # r) False (push cap c) w cap'" "g = snd cap'" by blast
  with cs have "s = (c # w) @ t \<and> matches (Plus q p # r) st cap (c # w) cap' \<and> g = snd cap'"
    by (simp del: matches.simps add: matches_Plus_take)
  then show ?case by blast
qed

lemma matches_accepts: "matches r st cap w cap' \<Longrightarrow> accepts r st w"
proof (induction r arbitrary: st cap w)
  case Nil
  then show ?case by simp
next
  case (Cons a r)
  show ?case
  proof (cases a)
    case (One p)
    with Cons.prems obtain c w' where "w = c # w'" "p c" "matches r False (push cap c) w' cap'"
      by auto
    with Cons.IH One show ?thesis by auto
  next
    case (Opt p)
    with Cons.prems consider "matches r st cap w cap'"
      | c w' where "w = c # w'" "p c" "matches r False (push cap c) w' cap'" by auto
    then show ?thesis
    proof cases
      case 1
      with Cons.IH Opt show ?thesis by auto
    next
      case 2
      with Cons.IH Opt show ?thesis by auto
    qed
  next
    case (Star q p)
    with Cons.prems obtain u v where "w = u @ v" "list_all p u"
      "matches r (st \<and> u = []) (foldl push cap u) v cap'" by auto
    with Cons.IH have "w = u @ v \<and> list_all p u \<and> accepts r (st \<and> u = []) v" by blast
    then show ?thesis unfolding Star accepts.simps by blast
  next
    case (Plus q p)
    with Cons.prems obtain u v where "w = u @ v" "u \<noteq> []" "list_all p u"
      "matches r False (foldl push cap u) v cap'" by auto
    with Cons.IH have "w = u @ v \<and> u \<noteq> [] \<and> list_all p u \<and> accepts r False v" by blast
    then show ?thesis unfolding Plus accepts.simps by blast
  next
    case GroupOpen
    with Cons show ?thesis by auto
  next
    case GroupClose
    with Cons show ?thesis by auto
  next
    case Caret
    with Cons.prems have "st" "matches r st cap w cap'" by auto
    with Cons.IH Caret show ?thesis by auto
  qed
qed

lemma accepts_matches: "accepts r st w \<Longrightarrow> \<exists>cap'. matches r st cap w cap'"
proof (induction r arbitrary: st cap w)
  case Nil
  then show ?case by simp
next
  case (Cons a r)
  show ?case
  proof (cases a)
    case (One p)
    with Cons.prems obtain c w' where cw: "w = c # w'" "p c" "accepts r False w'"
      by auto
    from Cons.IH[OF cw(3), of "push cap c"] cw One show ?thesis by auto
  next
    case (Opt p)
    with Cons.prems consider "accepts r st w"
      | c w' where "w = c # w'" "p c" "accepts r False w'" by auto
    then show ?thesis
    proof cases
      case 1
      from Cons.IH[OF 1, of cap] Opt show ?thesis by auto
    next
      case 2
      from Cons.IH[OF 2(3), of "push cap c"] 2 Opt show ?thesis by auto
    qed
  next
    case (Star q p)
    with Cons.prems obtain u v where uv: "w = u @ v" "list_all p u"
      "accepts r (st \<and> u = []) v" by auto
    from Cons.IH[OF uv(3), of "foldl push cap u"] obtain cap' where
      "matches r (st \<and> u = []) (foldl push cap u) v cap'" ..
    with uv have "w = u @ v \<and> list_all p u \<and> matches r (st \<and> u = []) (foldl push cap u) v cap'"
      by simp
    then show ?thesis unfolding Star matches.simps by blast
  next
    case (Plus q p)
    with Cons.prems obtain u v where uv: "w = u @ v" "u \<noteq> []" "list_all p u"
      "accepts r False v" by auto
    from Cons.IH[OF uv(4), of "foldl push cap u"] obtain cap' where
      "matches r False (foldl push cap u) v cap'" ..
    with uv have "w = u @ v \<and> u \<noteq> [] \<and> list_all p u \<and> matches r False (foldl push cap u) v cap'"
      by simp
    then show ?thesis unfolding Plus matches.simps by blast
  next
    case GroupOpen
    with Cons.prems have "accepts r st w" by simp
    from Cons.IH[OF this, of "(True, [])"] GroupOpen show ?thesis by auto
  next
    case GroupClose
    with Cons.prems have "accepts r st w" by simp
    from Cons.IH[OF this, of "(False, snd cap)"] GroupClose show ?thesis by auto
  next
    case Caret
    with Cons.prems have c: "accepts r st w" "st" by auto
    from Cons.IH[OF c(1), of cap] c(2) Caret show ?thesis by auto
  qed
qed

lemma accepts_iff_matches: "accepts r st w \<longleftrightarrow> (\<exists>cap'. matches r st cap w cap')"
  using accepts_matches matches_accepts by blast

lemma exec_Some_iff:
  "(\<exists>m. exec r st s = Some m) \<longleftrightarrow>
   (\<exists>pre w t. s = pre @ w @ t \<and> accepts r (st \<and> pre = []) w)"
proof (induction s arbitrary: st)
  case Nil
  have "(\<exists>m. exec r st [] = Some m) \<longleftrightarrow> (\<exists>w t. [] = w @ t \<and> accepts r st w)"
    unfolding exec.simps by (rule bt_Some_iff)
  then show ?case by simp
next
  case (Cons c s)
  have here: "(\<exists>m. bt r st (False, []) (c # s) = Some m) \<longleftrightarrow>
              (\<exists>w t. c # s = w @ t \<and> accepts r st w)"
    by (rule bt_Some_iff)
  have "(\<exists>m. exec r st (c # s) = Some m) \<longleftrightarrow>
        (\<exists>m. bt r st (False, []) (c # s) = Some m) \<or> (\<exists>m. exec r False s = Some m)"
    by (cases "bt r st (False, []) (c # s)") simp_all
  also have "\<dots> \<longleftrightarrow> (\<exists>w t. c # s = w @ t \<and> accepts r st w) \<or>
        (\<exists>pre w t. s = pre @ w @ t \<and> accepts r False w)"
    unfolding here Cons.IH[of False] by simp
  also have "\<dots> \<longleftrightarrow> (\<exists>pre w t. c # s = pre @ w @ t \<and> accepts r (st \<and> pre = []) w)"
  proof (intro iffI)
    assume "(\<exists>w t. c # s = w @ t \<and> accepts r st w) \<or>
        (\<exists>pre w t. s = pre @ w @ t \<and> accepts r False w)"
    then show "\<exists>pre w t. c # s = pre @ w @ t \<and> accepts r (st \<and> pre = []) w"
    proof
      assume "\<exists>w t. c # s = w @ t \<and> accepts r st w"
      then obtain w t where "c # s = [] @ w @ t \<and> accepts r (st \<and> ([]::string) = []) w" by auto
      then show ?thesis by blast
    next
      assume "\<exists>pre w t. s = pre @ w @ t \<and> accepts r False w"
      then obtain pre w t where "c # s = (c # pre) @ w @ t \<and> accepts r (st \<and> c # pre = []) w"
        by auto
      then show ?thesis by blast
    qed
  next
    assume "\<exists>pre w t. c # s = pre @ w @ t \<and> accepts r (st \<and> pre = []) w"
    then obtain pre w t where p: "c # s = pre @ w @ t" "accepts r (st \<and> pre = []) w" by blast
    show "(\<exists>w t. c # s = w @ t \<and> accepts r st w) \<or>
        (\<exists>pre w t. s = pre @ w @ t \<and> accepts r False w)"
    proof (cases pre)
      case Nil
      with p show ?thesis by auto
    next
      case (Cons a pre')
      with p have "s = pre' @ w @ t \<and> accepts r False w" by simp
      then show ?thesis by blast
    qed
  qed
  finally show ?case .
qed

lemma accepts_lit:
  "accepts (lit x @ r) st w \<longleftrightarrow> (\<exists>v. w = x @ v \<and> accepts r (st \<and> x = []) v)"
proof (induction x arbitrary: st w)
  case Nil
  show ?case by (simp add: lit_def)
next
  case (Cons a x)
  have "accepts (lit (a # x) @ r) st w \<longleftrightarrow>
        (\<exists>c w'. w = c # w' \<and> c = a \<and> accepts (lit x @ r) False w')"
    by (simp add: lit_def is_chr_def)
  also have "\<dots> \<longleftrightarrow> (\<exists>v. w = (a # x) @ v \<and> accepts r (st \<and> a # x = []) v)"
    unfolding Cons.IH by auto
  finally show ?case .
qed

lemma exec_matches:
  "exec r st s = Some (g, rest) \<Longrightarrow>
   \<exists>pre w cap' st'. s = pre @ w @ rest \<and> matches r st' (False, []) w cap' \<and> g = snd cap'"
proof (induction s arbitrary: st)
  case Nil
  then have "bt r st (False, []) [] = Some (g, rest)" by simp
  from bt_matches[OF this] obtain w cap' where
    "[] = [] @ w @ rest \<and> matches r st (False, []) w cap' \<and> g = snd cap'" by auto
  then show ?case by blast
next
  case (Cons c s)
  show ?case
  proof (cases "bt r st (False, []) (c # s)")
    case None
    with Cons.prems have "exec r False s = Some (g, rest)" by simp
    from Cons.IH[OF this] obtain pre w cap' st' where
      "s = pre @ w @ rest" "matches r st' (False, []) w cap'" "g = snd cap'" by blast
    then have "c # s = (c # pre) @ w @ rest \<and> matches r st' (False, []) w cap' \<and> g = snd cap'"
      by simp
    then show ?thesis by blast
  next
    case (Some m)
    with Cons.prems have "bt r st (False, []) (c # s) = Some (g, rest)" by simp
    from bt_matches[OF this] obtain w cap' where
      "c # s = [] @ w @ rest \<and> matches r st (False, []) w cap' \<and> g = snd cap'" by auto
    then show ?thesis by blast
  qed
qed

lemma scan_all_None: "exec r st s = None \<Longrightarrow> scan_all r st s = []"
  by (subst scan_all.simps) simp

lemma scan_all_Some:
  "exec r st s = Some (g, rest) \<Longrightarrow> length rest < length s \<Longrightarrow>
   scan_all r st s = g # scan_all r False rest"
  by (subst scan_all.simps) simp

lemma scan_all_stuck:
  "exec r st s = Some (g, rest) \<Longrightarrow> \<not> length rest < length s \<Longrightarrow> scan_all r st s = []"
  by (subst scan_all.simps) simp

lemma scan_all_matches:
  "x \<in> set (scan_all r st s) \<Longrightarrow>
   \<exists>pre w post cap' st'. s = pre @ w @ post \<and> matches r st' (False, []) w cap' \<and> x = snd cap'"
proof (induction "length s" arbitrary: s st rule: less_induct)
  case less
  show ?case
  proof (cases "exec r st s")
    case None
    from less.prems show ?thesis unfolding scan_all_None[OF None] by simp
  next
    case (Some m)
    obtain g rest where m: "m = (g, rest)" by (cases m)
    from Some m have e: "exec r st s = Some (g, rest)" by simp
    from exec_matches[OF e] obtain pre w cap' st' where
      here: "s = pre @ w @ rest" "matches r st' (False, []) w cap'" "g = snd cap'" by blast
    show ?thesis
    proof (cases "length rest < length s")
      case False
      from less.prems show ?thesis unfolding scan_all_stuck[OF e False] by simp
    next
      case True
      from less.prems have "x = g \<or> x \<in> set (scan_all r False rest)"
        unfolding scan_all_Some[OF e True] by simp
      then show ?thesis
      proof
        assume "x = g"
        with here have "s = pre @ w @ rest \<and> matches r st' (False, []) w cap' \<and> x = snd cap'"
          by simp
        then show ?thesis by (intro exI)
      next
        assume "x \<in> set (scan_all r False rest)"
        from less.hyps[OF True this] obtain pre' w' post' cap'' st'' where
          "rest = pre' @ w' @ post'" "matches r st'' (False, []) w' cap''" "x = snd cap''"
          by blast
        with here(1) have "s = (pre @ w @ pre') @ w' @ post' \<and>
          matches r st'' (False, []) w' cap'' \<and> x = snd cap''" by simp
        then show ?thesis by (intro exI)
      qed
    qed
  qed
qed

lemma scan_all_empty_iff:
  assumes "must_consume r"
  shows "scan_all r st s = [] \<longleftrightarrow> exec r st s = None"
proof (cases "exec r st s")
  case None
  then show ?thesis by (subst scan_all.simps) simp
next
  case (Some m)
  obtain g rest where m: "m = (g, rest)" by (cases m)
  from exec_shorter[OF assms] Some m have "length rest < length s" by blast
  with Some m show ?thesis by (subst scan_all.simps) simp
qed

section \<open>Version specifiers: what the check accepts\<close>

lemma exec_Caret_False: "exec (Caret # r) False s = None"
  by (induction s) auto

lemma test_Caret: "test (Caret # r) s \<longleftrightarrow> (\<exists>m. bt r True (False, []) s = Some m)"
  by (cases s) (auto simp: test_def exec_Caret_False split: option.splits)

lemma accepts_numbers:
  "accepts [Plus Greedy is_digit, One (is_chr CHR ''.''),
            Plus Greedy is_digit, One (is_chr CHR ''.''),
            Plus Greedy is_digit] st w \<longleftrightarrow>
   (\<exists>d1 d2 d3. w = d1 @ ''.'' @ d2 @ ''.'' @ d3 \<and>
      d1 \<noteq> [] \<and> list_all is_digit d1 \<and>
      d2 \<noteq> [] \<and> list_all is_digit d2 \<and>
      d3 \<noteq> [] \<and> list_all is_digit d3)"
  by (simp add: is_chr_def) blast

lemma version_syntax_numbers:
  "version_syntax v rest \<longleftrightarrow>
     (\<exists>pre w. v = pre @ w @ rest \<and> (pre = [] \<or> pre = ''^'' \<or> pre = ''~'') \<and> numbers w)"
  unfolding version_syntax_def numbers_def
  apply (rule iffI)
   apply (elim exE conjE)
  subgoal for pre d1 d2 d3
    by (rule exI[of _ pre], rule exI[of _ "d1 @ ''.'' @ d2 @ ''.'' @ d3"]) auto
  apply (elim exE conjE)
  subgoal for pre w d1 d2 d3
    by (rule exI[of _ pre], rule exI[of _ d1], rule exI[of _ d2], rule exI[of _ d3]) auto
  done

text \<open>
  C3, as amended. The validity predicate of the manifest check holds exactly for the
  strings that begin with an optional caret or tilde followed by three runs of digits
  separated by dots; the regular expression has no end anchor, so any text may follow
  the third number.
\<close>

theorem isValidVersion_iff_prefix:
  "isValidVersion v \<longleftrightarrow> (\<exists>rest. version_syntax v rest)"
proof -
  let ?nums = "[Plus Greedy is_digit, One (is_chr CHR ''.''),
            Plus Greedy is_digit, One (is_chr CHR ''.''),
            Plus Greedy is_digit]"
  have acc: "accepts ?nums st w = numbers w" for st w
    unfolding accepts_numbers numbers_def ..
  have "isValidVersion v \<longleftrightarrow> (\<exists>w t. v = w @ t \<and> accepts (Opt is_range_prefix # ?nums) True w)"
    unfolding isValidVersion_def version_regex_def test_Caret bt_Some_iff ..
  also have "\<dots> \<longleftrightarrow>
     (\<exists>w t. v = w @ t \<and> (numbers w \<or> (\<exists>c w'. w = c # w' \<and> is_range_prefix c \<and> numbers w')))"
    unfolding accepts.simps(6) acc ..
  also have "\<dots> \<longleftrightarrow> (\<exists>rest. version_syntax v rest)"
  proof
    assume "\<exists>w t. v = w @ t \<and> (numbers w \<or> (\<exists>c w'. w = c # w' \<and> is_range_prefix c \<and> numbers w'))"
    then obtain w t where v: "v = w @ t"
      and w: "numbers w \<or> (\<exists>c w'. w = c # w' \<and> is_range_prefix c \<and> numbers w')" by blast
    from w show "\<exists>rest. version_syntax v rest"
    proof
      assume "numbers w"
      with v have "v = [] @ w @ t \<and> ([] = [] \<or> [] = ''^'' \<or> [] = ''~'') \<and> numbers w" by simp
      then have "version_syntax v t" unfolding version_syntax_numbers by blast
      then show ?thesis ..
    next
      assume "\<exists>c w'. w = c # w' \<and> is_range_prefix c \<and> numbers w'"
      then obtain c w' where c: "w = c # w'" "is_range_prefix c" "numbers w'" by blast
      with v have "v = [c] @ w' @ t \<and> ([c] = [] \<or> [c] = ''^'' \<or> [c] = ''~'') \<and> numbers w'"
        by (auto simp: is_range_prefix_def)
      then have "version_syntax v t" unfolding version_syntax_numbers by blast
      then show ?thesis ..
    qed
  next
    assume "\<exists>rest. version_syntax v rest"
    then obtain rest pre w where v: "v = pre @ w @ rest"
      and pre: "pre = [] \<or> pre = ''^'' \<or> pre = ''~''" and w: "numbers w"
      unfolding version_syntax_numbers by blast
    from pre have "numbers (pre @ w) \<or> (\<exists>c w'. pre @ w = c # w' \<and> is_range_prefix c \<and> numbers w')"
      using w by (auto simp: is_range_prefix_def)
    with v have "v = (pre @ w) @ rest \<and>
      (numbers (pre @ w) \<or> (\<exists>c w'. pre @ w = c # w' \<and> is_range_prefix c \<and> numbers w'))"
      by simp
    then show "\<exists>w t. v = w @ t \<and> (numbers w \<or> (\<exists>c w'. w = c # w' \<and> is_range_prefix c \<and> numbers w'))"
      by blast
  qed
  finally show ?thesis .
qed

lemma version_syntax_last:
  assumes "version_syntax v []"
  shows "v \<noteq> [] \<and> is_digit (last v)"
proof -
  from assms obtain pre d1 d2 d3 where v: "v = pre @ d1 @ ''.'' @ d2 @ ''.'' @ d3 @ []"
    and d3: "d3 \<noteq> []" "list_all is_digit d3"
    unfolding version_syntax_def by blast
  from d3 have "is_digit (last d3)" by (simp add: list_all_iff)
  with v d3 show ?thesis by simp
qed

text \<open>
  C3, as stated, fails: \<^verbatim>\<open>1.2.3-beta\<close> is accepted by the predicate although characters
  follow the three numeric components.
\<close>

theorem isValidVersion_trailing_counterexample:
  "isValidVersion ''1.2.3-beta'' \<and> \<not> version_syntax ''1.2.3-beta'' []"
proof
  show "isValidVersion ''1.2.3-beta''"
    by (simp add: isValidVersion_def version_regex_def test_def is_digit_def is_chr_def is_range_prefix_def)
  show "\<not> version_syntax ''1.2.3-beta'' []"
  proof
    assume "version_syntax ''1.2.3-beta'' []"
    from version_syntax_last[OF this] show False by (simp add: is_digit_def)
  qed
qed

section \<open>The driver: which runs agree\<close>

lemma fc_assert_empty: "fc_assert [] predicate numRuns rng = Some (Threw ConstantFromEmpty)"
  by (simp add: fc_assert_def constantFrom_def)

lemma fc_assert_nonempty:
  "universe \<noteq> [] \<Longrightarrow> fc_assert universe predicate numRuns rng = runs universe predicate rng 0 numRuns"
  by (simp add: fc_assert_def constantFrom_def)

lemma runs_all_pass:
  assumes "values \<noteq> []" and "\<And>x. x \<in> set values \<Longrightarrow> predicate x = Some (Inr True)"
  shows "runs values predicate rng i n = Some Passed"
proof (induction n arbitrary: i)
  case 0
  show ?case by simp
next
  case (Suc n)
  from assms(1) have "values ! (rng i mod length values) \<in> set values" by simp
  from assms(2)[OF this] Suc show ?case by simp
qed

lemma runs_same_draws:
  assumes "\<And>k. k < n \<Longrightarrow> rng1 (i + k) mod length values = rng2 (i + k) mod length values"
  shows "runs values predicate rng1 i n = runs values predicate rng2 i n"
  using assms
proof (induction n arbitrary: i)
  case 0
  show ?case by simp
next
  case (Suc n)
  from Suc.prems[of 0] have h: "rng1 i mod length values = rng2 i mod length values" by simp
  have "runs values predicate rng1 (Suc i) n = runs values predicate rng2 (Suc i) n"
  proof (rule Suc.IH)
    fix k assume "k < n"
    with Suc.prems[of "Suc k"] show
      "rng1 (Suc i + k) mod length values = rng2 (Suc i + k) mod length values" by simp
  qed
  with h show ?case by (simp split: option.splits sum.splits)
qed

lemma runs_first_fails:
  assumes "predicate (values ! (rng i mod length values)) = Some (Inl v)"
  shows "runs values predicate rng i (Suc n) = Some (Failed v)"
  using assms by simp

lemma runs_all_fail:
  assumes "values \<noteq> []" and "\<And>x. x \<in> set values \<Longrightarrow> \<exists>v. predicate x = Some (Inl v)"
  shows "\<exists>v. runs values predicate rng i (Suc n) = Some (Failed v)"
proof -
  from assms(1) have "values ! (rng i mod length values) \<in> set values" by simp
  from assms(2)[OF this] show ?thesis by auto
qed

lemma runs_pass_iff:
  "runs values predicate rng i n = Some Passed \<longleftrightarrow>
   (\<forall>k<n. predicate (values ! (rng (i + k) mod length values)) = Some (Inr True))"
proof (induction n arbitrary: i)
  case 0
  show ?case by simp
next
  case (Suc n)
  have s: "(\<forall>k<Suc n. predicate (values ! (rng (i + k) mod length values)) = Some (Inr True)) \<longleftrightarrow>
        predicate (values ! (rng i mod length values)) = Some (Inr True) \<and>
        (\<forall>k<n. predicate (values ! (rng (Suc i + k) mod length values)) = Some (Inr True))"
    by (auto simp: less_Suc_eq_0_disj)
  show ?case unfolding s using Suc.IH[of "Suc i"]
    by (auto split: option.splits sum.splits)
qed

lemma runs_fail_at:
  assumes "\<And>k. k < j \<Longrightarrow> predicate (values ! (rng (i + k) mod length values)) = Some (Inr True)"
    and "predicate (values ! (rng (i + j) mod length values)) = Some (Inl v)"
    and "j < n"
  shows "runs values predicate rng i n = Some (Failed v)"
  using assms
proof (induction j arbitrary: i n)
  case 0
  then obtain m where "n = Suc m" by (cases n) auto
  with 0 show ?case by simp
next
  case (Suc j)
  then obtain m where n: "n = Suc m" by (cases n) auto
  from Suc.prems(1)[of 0] have h: "predicate (values ! (rng i mod length values)) = Some (Inr True)"
    by simp
  have "runs values predicate rng (Suc i) m = Some (Failed v)"
  proof (rule Suc.IH)
    fix k assume "k < j"
    with Suc.prems(1)[of "Suc k"]
    show "predicate (values ! (rng (Suc i + k) mod length values)) = Some (Inr True)" by simp
  next
    from Suc.prems(2) show "predicate (values ! (rng (Suc i + j) mod length values)) = Some (Inl v)"
      by simp
  next
    from Suc.prems(3) n show "j < m" by simp
  qed
  with h n show ?case by simp
qed

lemma hundred: "(100::nat) = Suc 99"
  by simp

text \<open>
  C4, as amended. Two runs of a check on the same universe give the same outcome when
  they draw the same samples. A run on a universe that is not empty passes exactly when
  every element it draws passes the predicate. So, whatever the two runs draw, they give
  the same outcome when every element of the universe passes, and both fail when every
  element fails and at least one sample is drawn. (An empty universe makes both runs
  throw.) When some elements pass and others fail, the outcome follows the draws.
\<close>

theorem same_outcome:
  "((\<forall>i<numRuns. rng1 i mod length universe = rng2 i mod length universe) \<longrightarrow>
      fc_assert universe predicate numRuns rng1 = fc_assert universe predicate numRuns rng2) \<and>
   ((\<forall>x\<in>set universe. predicate x = Some (Inr True)) \<longrightarrow>
      fc_assert universe predicate numRuns rng1 = fc_assert universe predicate numRuns rng2) \<and>
   (universe \<noteq> [] \<and> 0 < numRuns \<and> (\<forall>x\<in>set universe. \<exists>v. predicate x = Some (Inl v)) \<longrightarrow>
      (\<exists>v. fc_assert universe predicate numRuns rng1 = Some (Failed v)) \<and>
      (\<exists>v. fc_assert universe predicate numRuns rng2 = Some (Failed v))) \<and>
   (universe \<noteq> [] \<longrightarrow>
      (fc_assert universe predicate numRuns rng1 = Some Passed \<longleftrightarrow>
         (\<forall>i<numRuns. predicate (universe ! (rng1 i mod length universe)) = Some (Inr True))))"
proof (cases "universe = []")
  case True
  then show ?thesis by (simp add: fc_assert_empty)
next
  case False
  note ne = fc_assert_nonempty[OF False]
  show ?thesis
  proof (intro conjI impI)
    assume "\<forall>i<numRuns. rng1 i mod length universe = rng2 i mod length universe"
    then show "fc_assert universe predicate numRuns rng1 = fc_assert universe predicate numRuns rng2"
      unfolding ne by (intro runs_same_draws) simp
  next
    assume "\<forall>x\<in>set universe. predicate x = Some (Inr True)"
    then show "fc_assert universe predicate numRuns rng1 = fc_assert universe predicate numRuns rng2"
      unfolding ne by (simp add: runs_all_pass[OF False])
  next
    assume a: "universe \<noteq> [] \<and> 0 < numRuns \<and> (\<forall>x\<in>set universe. \<exists>v. predicate x = Some (Inl v))"
    then obtain n where n: "numRuns = Suc n" by (cases numRuns) auto
    from a have f: "\<And>x. x \<in> set universe \<Longrightarrow> \<exists>v. predicate x = Some (Inl v)" by blast
    from runs_all_fail[where predicate = predicate and rng = rng1 and i = 0 and n = n, OF False] f
    show "\<exists>v. fc_assert universe predicate numRuns rng1 = Some (Failed v)"
      unfolding ne n by blast
    from runs_all_fail[where predicate = predicate and rng = rng2 and i = 0 and n = n, OF False] f
    show "\<exists>v. fc_assert universe predicate numRuns rng2 = Some (Failed v)"
      unfolding ne n by blast
  next
    show "fc_assert universe predicate numRuns rng1 = Some Passed \<longleftrightarrow>
         (\<forall>i<numRuns. predicate (universe ! (rng1 i mod length universe)) = Some (Inr True))"
      unfolding ne runs_pass_iff by simp
  qed
qed

theorem same_outcome_witness:
  "list_all (\<lambda>i. (\<lambda>i. 1::nat) i mod length [''a'', ''b''] = (\<lambda>i. 3) i mod length [''a'', ''b'']) [0..<100] \<and>
   fc_assert [''a'', ''b''] (\<lambda>x. Some (property4_body ''--a: 1;'' x)) 100 (\<lambda>i. 1) =
   fc_assert [''a'', ''b''] (\<lambda>x. Some (property4_body ''--a: 1;'' x)) 100 (\<lambda>i. 3) \<and>
   list_all (\<lambda>x. Some (property4_body ''--a: 1;'' x) = Some (Inr True)) [''a''] \<and>
   fc_assert [''a''] (\<lambda>x. Some (property4_body ''--a: 1;'' x)) 100 (\<lambda>i. i) =
   fc_assert [''a''] (\<lambda>x. Some (property4_body ''--a: 1;'' x)) 100 (\<lambda>i. 0) \<and>
   [''b'', ''c''] \<noteq> [] \<and> (0::nat) < 100 \<and>
   list_all (\<lambda>x. Some (property4_body ''--a: 1;'' x) = Some (Inl (Unpreserved x))) [''b'', ''c''] \<and>
   (\<exists>v. fc_assert [''b'', ''c''] (\<lambda>x. Some (property4_body ''--a: 1;'' x)) 100 (\<lambda>i. i) = Some (Failed v)) \<and>
   (\<exists>v. fc_assert [''b'', ''c''] (\<lambda>x. Some (property4_body ''--a: 1;'' x)) 100 (\<lambda>i. 0) = Some (Failed v)) \<and>
   [''a'', ''b''] \<noteq> [] \<and>
   list_all (\<lambda>i. Some (property4_body ''--a: 1;'' ([''a'', ''b''] ! ((\<lambda>i. 2 * i) i mod length [''a'', ''b'']))) =
       Some (Inr True)) [0..<100] \<and>
   fc_assert [''a'', ''b''] (\<lambda>x. Some (property4_body ''--a: 1;'' x)) 100 (\<lambda>i. 2 * i) = Some Passed"
proof -
  let ?p = "\<lambda>x. Some (property4_body ''--a: 1;'' x)"
  have a: "?p ''a'' = Some (Inr True)"
    by (simp add: property4_body_def existsInTarget_def variablePattern_def test_def lit_def
        is_chr_def is_space_def)
  have b: "?p ''b'' = Some (Inl (Unpreserved ''b''))"
    by (simp add: property4_body_def existsInTarget_def variablePattern_def test_def lit_def
        is_chr_def is_space_def)
  have c: "?p ''c'' = Some (Inl (Unpreserved ''c''))"
    by (simp add: property4_body_def existsInTarget_def variablePattern_def test_def lit_def
        is_chr_def is_space_def)
  have l: "length [''a'', ''b''] = 2"
    by simp
  have h: "\<forall>i<100. (\<lambda>i. 1::nat) i mod length [''a'', ''b''] = (\<lambda>i. 3) i mod length [''a'', ''b'']"
    unfolding l by simp
  have 1: "fc_assert [''a'', ''b''] ?p 100 (\<lambda>i. 1) = fc_assert [''a'', ''b''] ?p 100 (\<lambda>i. 3)"
    using same_outcome[of 100 "\<lambda>i. 1" "[''a'', ''b'']" "\<lambda>i. 3" ?p] h by blast
  have 2: "fc_assert [''a''] ?p 100 (\<lambda>i. i) = fc_assert [''a''] ?p 100 (\<lambda>i. 0)"
    using same_outcome[of 100 "\<lambda>i. i" "[''a'']" "\<lambda>i. 0" ?p] a by simp
  have 3: "(\<exists>v. fc_assert [''b'', ''c''] ?p 100 (\<lambda>i. i) = Some (Failed v)) \<and>
           (\<exists>v. fc_assert [''b'', ''c''] ?p 100 (\<lambda>i. 0) = Some (Failed v))"
    using same_outcome[of 100 "\<lambda>i. i" "[''b'', ''c'']" "\<lambda>i. 0" ?p] b c by simp
  have d: "\<forall>i<100. ?p ([''a'', ''b''] ! ((\<lambda>i. 2 * i) i mod length [''a'', ''b''])) = Some (Inr True)"
    unfolding l using a by simp
  have 4: "fc_assert [''a'', ''b''] ?p 100 (\<lambda>i. 2 * i) = Some Passed"
    using same_outcome[of 100 "\<lambda>i. 2 * i" "[''a'', ''b'']" "\<lambda>i. 2 * i" ?p] d by blast
  have h': "list_all (\<lambda>i. (\<lambda>i. 1::nat) i mod length [''a'', ''b''] = (\<lambda>i. 3) i mod length [''a'', ''b'']) [0..<100]"
    using h by (simp add: list_all_iff)
  have d': "list_all (\<lambda>i. ?p ([''a'', ''b''] ! ((\<lambda>i. 2 * i) i mod length [''a'', ''b''])) = Some (Inr True)) [0..<100]"
    using d by (simp add: list_all_iff)
  show ?thesis
    using a b c by (intro conjI 1 2 3[THEN conjunct1] 3[THEN conjunct2] 4 h' d') simp_all
qed

section \<open>Custom properties: the match in closed form, and joining texts\<close>

lemma foldl_push_open: "foldl push (True, g) u = (True, g @ u)"
  by (induction u arbitrary: g) auto

lemma foldl_push_closed: "foldl push (False, g) u = (False, g)"
  by (induction u arbitrary: g) auto

lemma greedy_star_commit:
  assumes fail: "\<And>c s st cap. p c \<Longrightarrow> bt r st cap (c # s) = None"
  shows "bt (Star Greedy p # r) st cap s =
         bt r (st \<and> takeWhile p s = []) (foldl push cap (takeWhile p s)) (dropWhile p s)"
proof (induction s arbitrary: st cap)
  case Nil
  then show ?case by simp
next
  case (Cons c s)
  show ?case
  proof (cases "p c")
    case False
    then show ?thesis by simp
  next
    case True
    have "bt (Star Greedy p # r) st cap (c # s) =
          (case bt (Star Greedy p # r) False (push cap c) s of Some m \<Rightarrow> Some m | None \<Rightarrow> None)"
      by (subst bt.simps) (simp add: True fail[OF True] del: bt.simps split: option.splits)
    also have "\<dots> = bt (Star Greedy p # r) False (push cap c) s"
      by (simp split: option.splits del: bt.simps)
    also have "\<dots> = bt r False (foldl push (push cap c) (takeWhile p s)) (dropWhile p s)"
      by (simp only: Cons.IH simp_thms)
    finally show ?thesis using True by (simp del: bt.simps)
  qed
qed

lemma name_not_space: "is_name c \<Longrightarrow> \<not> is_space c"
  by (auto simp: is_name_def is_word_def is_space_def)

lemma name_not_colon: "is_name c \<Longrightarrow> c \<noteq> CHR '':''"
  by (auto simp: is_name_def is_word_def)

lemma space_not_colon: "is_space c \<Longrightarrow> c \<noteq> CHR '':''"
  by (auto simp: is_space_def)

lemma space_not_hyphen: "is_space c \<Longrightarrow> c \<noteq> CHR ''-''"
  by (auto simp: is_space_def)

lemma bt_colon:
  "bt [One (is_chr CHR '':'')] st (False, g) d =
     (case d of [] \<Rightarrow> None | c # rest \<Rightarrow> if c = CHR '':'' then Some (g, rest) else None)"
  by (cases d) (simp_all add: is_chr_def)

lemma bt_space_colon:
  "bt [Star Greedy is_space, One (is_chr CHR '':'')] st (False, g) s = after_name g s"
proof -
  have fail: "bt [One (is_chr CHR '':'')] st cap (c # s) = None" if "is_space c" for c s st cap
    using space_not_colon[OF that] by (simp add: is_chr_def)
  have "bt [Star Greedy is_space, One (is_chr CHR '':'')] st (False, g) s =
        bt [One (is_chr CHR '':'')] (st \<and> takeWhile is_space s = [])
           (foldl push (False, g) (takeWhile is_space s)) (dropWhile is_space s)"
    by (rule greedy_star_commit[OF fail])
  also have "\<dots> = after_name g s"
    unfolding foldl_push_closed after_name_def bt_colon ..
  finally show ?thesis .
qed

lemma bt_name_tail:
  "bt [Plus Greedy is_name, GroupClose, Star Greedy is_space, One (is_chr CHR '':'')]
      st (True, []) t =
   (if takeWhile is_name t = [] then None
    else after_name (takeWhile is_name t) (dropWhile is_name t))"
proof -
  let ?r1 = "[GroupClose, Star Greedy is_space, One (is_chr CHR '':'')]"
  have close: "bt ?r1 st cap s = after_name (snd cap) s" for st cap s
    unfolding bt.simps(4) by (rule bt_space_colon)
  have fail: "bt ?r1 st cap (c # s) = None" if "is_name c" for c s st cap
  proof -
    have "bt ?r1 st cap (c # s) = after_name (snd cap) (c # s)"
      by (rule close)
    also have "\<dots> = None"
      using name_not_space[OF that] name_not_colon[OF that] by (simp add: after_name_def)
    finally show ?thesis .
  qed
  show ?thesis
  proof (cases t)
    case Nil
    then show ?thesis unfolding bt.simps(9) by simp
  next
    case (Cons c t')
    show ?thesis
    proof (cases "is_name c")
      case False
      with Cons show ?thesis unfolding bt.simps(9) by simp
    next
      case True
      have "bt (Plus Greedy is_name # ?r1) st (True, []) (c # t') =
            bt (Star Greedy is_name # ?r1) False (True, [c]) t'"
        unfolding bt.simps(9) using True by (simp del: bt.simps)
      also have "\<dots> = bt ?r1 (False \<and> takeWhile is_name t' = [])
           (foldl push (True, [c]) (takeWhile is_name t')) (dropWhile is_name t')"
        by (rule greedy_star_commit[OF fail])
      also have "\<dots> = after_name (c # takeWhile is_name t') (dropWhile is_name t')"
        unfolding foldl_push_open close by (simp del: bt.simps)
      finally show ?thesis using True Cons by (simp del: bt.simps)
    qed
  qed
qed
lemma bt_cssVariableRegex: "bt cssVariableRegex st (False, g) s = declaration_at s"
proof -
  let ?r = "[Plus Greedy is_name, GroupClose, Star Greedy is_space, One (is_chr CHR '':'')]"
  have open_group: "bt (GroupOpen # ?r) st cap t =
     (if takeWhile is_name t = [] then None
      else after_name (takeWhile is_name t) (dropWhile is_name t))" for st cap t
    unfolding bt.simps(3) by (rule bt_name_tail)
  have one: "bt (One (is_chr a) # r) st cap s =
     (case s of [] \<Rightarrow> None | c # s' \<Rightarrow> if c = a then bt r False (push cap c) s' else None)"
    for a r st cap s
    unfolding bt.simps(5) is_chr_def ..
  show ?thesis
  proof (cases s)
    case Nil
    then show ?thesis 
      unfolding cssVariableRegex_def lit_def declaration_at_def list.map append.simps one by simp
  next
    case s1: (Cons a s')
    show ?thesis
    proof (cases s')
      case Nil
      with s1 show ?thesis
        unfolding cssVariableRegex_def lit_def declaration_at_def list.map append.simps one by simp
    next
      case (Cons b t)
      with s1 show ?thesis
        unfolding cssVariableRegex_def lit_def declaration_at_def list.map append.simps one open_group
        by (simp del: bt.simps)
    qed
  qed
qed

lemma last_dropWhile: "dropWhile P xs \<noteq> [] \<Longrightarrow> last (dropWhile P xs) = last xs"
  by (induction xs) (auto split: if_splits)

lemma list_all_last: "list_all P xs \<Longrightarrow> xs \<noteq> [] \<Longrightarrow> P (last xs)"
  by (simp add: list_all_iff)

lemma takeWhile_all: "list_all P xs \<Longrightarrow> takeWhile P xs = xs"
  by (simp add: list_all_iff)

lemma dropWhile_all: "list_all P xs \<Longrightarrow> dropWhile P xs = []"
  by (simp add: list_all_iff)

lemma dropWhile_not_all: "\<not> list_all P xs \<Longrightarrow> dropWhile P xs \<noteq> []"
  by (simp add: list_all_iff)

lemma takeWhile_app:
  "takeWhile P (t @ b) = (if list_all P t then t @ takeWhile P b else takeWhile P t)"
  by (simp add: takeWhile_append list_all_iff)

lemma dropWhile_app:
  "dropWhile P (t @ b) = (if list_all P t then dropWhile P b else dropWhile P t @ b)"
  by (simp add: dropWhile_append list_all_iff)

lemma after_name_append:
  "\<not> list_all is_space r \<Longrightarrow> after_name g (r @ b) = followed_by b (after_name g r)"
  unfolding after_name_def dropWhile_app
  using dropWhile_not_all[of is_space r] by (cases "dropWhile is_space r") auto

lemma after_name_stop:
  "\<not> is_space y \<Longrightarrow> y \<noteq> CHR '':'' \<Longrightarrow> after_name g (y # b) = None"
  by (simp add: after_name_def)

lemma after_name_spaces: "list_all is_space r \<Longrightarrow> after_name g (r @ b) = after_name g b"
  unfolding after_name_def dropWhile_app by simp

lemma after_name_all_space: "list_all is_space r \<Longrightarrow> after_name g r = None"
  unfolding after_name_def by (simp add: dropWhile_all)

lemma declaration_at_append:
  assumes "u \<noteq> []" and "junction u b"
  shows "declaration_at (u @ b) = followed_by b (declaration_at u)"
proof (cases b)
  case Nil
  then show ?thesis by (cases "declaration_at u") auto
next
  case b: (Cons y b')
  with assms have ns: "no_straddle (last u) y" by (simp add: junction_def)
  show ?thesis
  proof (cases u)
    case Nil
    with assms show ?thesis by simp
  next
    case u1: (Cons c u')
    show ?thesis
    proof (cases u')
      case Nil
      with u1 b ns have "\<not> (c = CHR ''-'' \<and> y = CHR ''-'')"
        by (auto simp: no_straddle_def is_name_def)
      with Nil u1 b show ?thesis by (auto simp: declaration_at_def)
    next
      case u2: (Cons d t)
      show ?thesis
      proof (cases "c = CHR ''-'' \<and> d = CHR ''-''")
        case False
        with u1 u2 show ?thesis by (auto simp: declaration_at_def)
      next
        case hy: True
        have lastN: "is_name (last u)" if "list_all is_name t"
          using that u1 u2 hy list_all_last[of is_name t] by (cases "t = []") (auto simp: is_name_def)
        show ?thesis
        proof (cases "list_all is_name t")
          case True
          from lastN[OF True] ns have y: "\<not> is_name y" "\<not> is_space y" "y \<noteq> CHR '':''"
            by (auto simp: no_straddle_def)
          have "declaration_at u = None"
            using u1 u2 True
            by (simp add: declaration_at_def takeWhile_all dropWhile_all after_name_def)
          moreover have "declaration_at (u @ b) = None"
            using u1 u2 b True y
            by (simp add: declaration_at_def takeWhile_app dropWhile_app after_name_stop)
          ultimately show ?thesis by simp
        next
          case notN: False
          let ?r1 = "dropWhile is_name t"
          have r1: "?r1 \<noteq> []" using notN by (rule dropWhile_not_all)
          have last_r1: "last ?r1 = last u"
            using last_dropWhile[OF r1] u1 u2 r1 by auto
          show ?thesis
          proof (cases "takeWhile is_name t = []")
            case True
            with u1 u2 notN show ?thesis
              by (simp add: declaration_at_def takeWhile_app)
          next
            case name: False
            have du: "declaration_at u = after_name (takeWhile is_name t) ?r1"
              using u1 u2 hy name by (simp add: declaration_at_def)
            have dub: "declaration_at (u @ b) = after_name (takeWhile is_name t) (?r1 @ b)"
              using u1 u2 hy name notN by (simp add: declaration_at_def takeWhile_app dropWhile_app)
            show ?thesis
            proof (cases "list_all is_space ?r1")
              case True
              from list_all_last[OF True r1] last_r1 ns
              have y: "\<not> is_space y" "y \<noteq> CHR '':''" by (auto simp: no_straddle_def)
              from True y b show ?thesis
                unfolding du dub by (simp add: after_name_spaces after_name_all_space after_name_stop)
            next
              case False
              then show ?thesis unfolding du dub by (rule after_name_append)
            qed
          qed
        qed
      qed
    qed
  qed
qed

lemma must_consume_css: "must_consume cssVariableRegex"
  by (simp add: cssVariableRegex_def lit_def)

lemma declaration_at_Nil: "declaration_at [] = None"
  by (simp add: declaration_at_def)

lemma exec_css_Nil: "exec cssVariableRegex st [] = None"
  unfolding exec.simps bt_cssVariableRegex by (rule declaration_at_Nil)

lemma exec_css_Cons:
  "exec cssVariableRegex st (c # s) =
     (case declaration_at (c # s) of Some m \<Rightarrow> Some m | None \<Rightarrow> exec cssVariableRegex False s)"
  unfolding exec.simps bt_cssVariableRegex ..

lemma exec_css_st: "exec cssVariableRegex st s = exec cssVariableRegex False s"
  by (cases s) (simp_all only: exec_css_Nil exec_css_Cons)

lemma exec_suffix: "exec r st s = Some (g, rest) \<Longrightarrow> \<exists>pre. s = pre @ rest"
proof (induction s arbitrary: st)
  case Nil
  then show ?case using bt_sound by fastforce
next
  case (Cons c s)
  show ?case
  proof (cases "bt r st (False, []) (c # s)")
    case None
    with Cons.prems have "exec r False s = Some (g, rest)" by simp
    from Cons.IH[OF this] obtain pre where "s = pre @ rest" ..
    then have "c # s = (c # pre) @ rest" by simp
    then show ?thesis ..
  next
    case (Some m)
    with Cons.prems have "bt r st (False, []) (c # s) = Some (g, rest)" by simp
    from bt_sound[OF this] show ?thesis by blast
  qed
qed

lemma junction_Nil: "junction [] b"
  by (simp add: junction_def)

lemma junction_suffix: "junction (pre @ rest) b \<Longrightarrow> junction rest b"
  by (cases "rest = []") (auto simp: junction_def)

lemma exec_css_append:
  "junction u b \<Longrightarrow>
   exec cssVariableRegex st (u @ b) =
     (case exec cssVariableRegex st u of
        Some m \<Rightarrow> followed_by b (Some m)
      | None \<Rightarrow> exec cssVariableRegex False b)"
proof (induction u arbitrary: st)
  case Nil
  show ?case using exec_css_st[of st b] by (simp only: exec_css_Nil append_Nil option.case)
next
  case (Cons c u)
  from Cons.prems have j: "junction u b" using junction_suffix[of "[c]" u b] by simp
  have d: "declaration_at ((c # u) @ b) = followed_by b (declaration_at (c # u))"
    using Cons.prems by (intro declaration_at_append) simp_all
  show ?case
  proof (cases "declaration_at (c # u)")
    case None
    with d have "declaration_at (c # u @ b) = None" by simp
    with None Cons.IH[OF j, of False] show ?thesis
      by (simp only: append_Cons exec_css_Cons option.case)
  next
    case (Some m)
    with d have "declaration_at (c # u @ b) = followed_by b (Some m)" by simp
    with Some show ?thesis
      by (simp only: append_Cons exec_css_Cons option.case option.map)
  qed
qed

lemma scan_all_css_st: "scan_all cssVariableRegex st s = scan_all cssVariableRegex False s"
  by (subst scan_all.simps, subst (2) scan_all.simps) (simp only: exec_css_st[of st])

lemma scan_all_css_append:
  "junction u b \<Longrightarrow>
   scan_all cssVariableRegex st (u @ b) =
   scan_all cssVariableRegex st u @ scan_all cssVariableRegex st b"
proof (induction "length u" arbitrary: u st rule: less_induct)
  case less
  note ex = exec_css_append[OF less.prems, of st]
  show ?case
  proof (cases "exec cssVariableRegex st u")
    case None
    then have u: "scan_all cssVariableRegex st u = []"
      by (subst scan_all.simps) simp
    from None ex have e: "exec cssVariableRegex st (u @ b) = exec cssVariableRegex st b"
      using exec_css_st[of st b] by simp
    have "scan_all cssVariableRegex st (u @ b) = scan_all cssVariableRegex st b"
    proof (cases "exec cssVariableRegex st b")
      case None
      with e show ?thesis by (subst scan_all.simps, subst (2) scan_all.simps) simp
    next
      case (Some m)
      obtain g rest where m: "m = (g, rest)" by (cases m)
      from exec_shorter[OF must_consume_css] Some m have "length rest < length b" by blast
      with e Some m show ?thesis
        by (subst scan_all.simps, subst (2) scan_all.simps) simp
    qed
    with u show ?thesis by simp
  next
    case (Some m)
    obtain g rest where m: "m = (g, rest)" by (cases m)
    from exec_shorter[OF must_consume_css] Some m have lt: "length rest < length u" by blast
    from exec_suffix Some m obtain pre where pre: "u = pre @ rest" by blast
    with less.prems have j: "junction rest b" using junction_suffix by blast
    from Some m ex have e: "exec cssVariableRegex st (u @ b) = Some (g, rest @ b)" by simp
    have "scan_all cssVariableRegex st (u @ b) = g # scan_all cssVariableRegex False (rest @ b)"
      using e lt by (subst scan_all.simps) simp
    also have "\<dots> = g # (scan_all cssVariableRegex False rest @ scan_all cssVariableRegex False b)"
      using less.hyps[OF lt j] by simp
    finally have ub: "scan_all cssVariableRegex st (u @ b) =
        g # (scan_all cssVariableRegex False rest @ scan_all cssVariableRegex False b)" .
    have "scan_all cssVariableRegex st u = g # scan_all cssVariableRegex False rest"
      using Some m lt by (subst scan_all.simps) simp
    with ub show ?thesis using scan_all_css_st[of st b] by simp
  qed
qed

lemma scan_all_exec_eq:
  assumes "must_consume r" and "exec r st s = exec r st' s'"
  shows "scan_all r st s = scan_all r st' s'"
proof (cases "exec r st s")
  case None
  with assms(2) show ?thesis by (subst scan_all.simps, subst (2) scan_all.simps) simp
next
  case (Some m)
  obtain g rest where m: "m = (g, rest)" by (cases m)
  from exec_shorter[OF assms(1)] Some m have "length rest < length s" by blast
  moreover from exec_shorter[OF assms(1)] Some m assms(2) have "length rest < length s'" by metis
  ultimately show ?thesis using Some m assms(2)
    by (subst scan_all.simps, subst (2) scan_all.simps) simp
qed

lemma declaration_at_space: "is_space c \<Longrightarrow> declaration_at (c # s) = None"
  using space_not_hyphen[of c] by (cases s) (auto simp: declaration_at_def)

lemma exec_css_spaces:
  "list_all is_space w \<Longrightarrow> exec cssVariableRegex st (w @ b) = exec cssVariableRegex st b"
proof (induction w arbitrary: st)
  case Nil
  then show ?case by simp
next
  case (Cons c w)
  then have "exec cssVariableRegex st ((c # w) @ b) = exec cssVariableRegex False b"
    by (simp only: append_Cons exec_css_Cons) (simp add: declaration_at_space)
  then show ?case using exec_css_st[of st b] by simp
qed

lemma scan_all_css_spaces:
  "list_all is_space w \<Longrightarrow> scan_all cssVariableRegex st (w @ b) = scan_all cssVariableRegex st b"
  by (rule scan_all_exec_eq[OF must_consume_css]) (rule exec_css_spaces)

lemma scan_all_css_Nil: "scan_all cssVariableRegex st [] = []"
  by (subst scan_all.simps) (simp only: exec_css_Nil option.case)

lemma clean_end_split:
  assumes "clean_end a"
  obtains a' w where "a = a' @ w" "list_all is_space w" "\<forall>b. junction a' b"
proof -
  let ?w = "rev (takeWhile is_space (rev a))" and ?a' = "rev (dropWhile is_space (rev a))"
  have split: "a = ?a' @ ?w"
    by (metis rev_append rev_rev_ident takeWhile_dropWhile_id)
  have w: "list_all is_space ?w"
    by (simp add: list_all_iff) (meson set_takeWhileD)
  have "junction ?a' b" for b
  proof (cases "dropWhile is_space (rev a)")
    case Nil
    then show ?thesis by (simp add: junction_def)
  next
    case (Cons x left)
    with assms have "\<not> is_name x" by (simp add: clean_end_def)
    moreover from Cons have "\<not> is_space x" using hd_dropWhile[of is_space "rev a"] by simp
    moreover from Cons have "last ?a' = x" by simp
    ultimately show ?thesis by (simp add: junction_def no_straddle_def)
  qed
  then have "\<forall>b. junction ?a' b" ..
  with split w show thesis by (rule that)
qed

lemma scan_all_css_clean:
  assumes "clean_end a"
  shows "scan_all cssVariableRegex st (a @ b) =
         scan_all cssVariableRegex st a @ scan_all cssVariableRegex st b"
proof -
  from assms obtain a' w where a: "a = a' @ w" and w: "list_all is_space w"
    and ja: "\<forall>b. junction a' b" by (rule clean_end_split)
  from ja have j: "junction a' b" for b ..
  have "scan_all cssVariableRegex st (a @ b) =
        scan_all cssVariableRegex st a' @ scan_all cssVariableRegex st (w @ b)"
    unfolding a append_assoc by (rule scan_all_css_append[OF j])
  also have "scan_all cssVariableRegex st (w @ b) = scan_all cssVariableRegex st b"
    by (rule scan_all_css_spaces[OF w])
  finally have ab: "scan_all cssVariableRegex st (a @ b) =
        scan_all cssVariableRegex st a' @ scan_all cssVariableRegex st b" .
  have "scan_all cssVariableRegex st a =
        scan_all cssVariableRegex st a' @ scan_all cssVariableRegex st (w @ [])"
    unfolding a using scan_all_css_append[OF j, of st w] by simp
  also have "scan_all cssVariableRegex st (w @ []) = []"
    unfolding scan_all_css_spaces[OF w] by (rule scan_all_css_Nil)
  finally show ?thesis using ab by simp
qed

lemma set_foldl_set_add: "set (foldl set_add acc xs) = set acc \<union> set xs"
  by (induction xs arbitrary: acc) (auto simp: set_add_def)

lemma distinct_foldl_set_add: "distinct acc \<Longrightarrow> distinct (foldl set_add acc xs)"
  by (induction xs arbitrary: acc) (auto simp: set_add_def)

lemma extractVariables_scan:
  "extractVariables css = Some (foldl set_add [] (scan_all cssVariableRegex True css))"
  unfolding extractVariables_def by (rule exec_loop_scan_all[OF must_consume_css])

lemma clean_end_newline: "clean_end a \<Longrightarrow> clean_end (a @ [CHR 0x0A])"
  by (simp add: clean_end_def is_space_def)

lemma declared_clean: "clean_end a \<Longrightarrow> declared (a @ b) = declared a \<union> declared b"
  by (simp add: declared_def scan_all_css_clean)

lemma declared_newline: "declared ([CHR 0x0A] @ b) = declared b"
  unfolding declared_def by (rule arg_cong[where f=set], rule scan_all_css_spaces) (simp add: is_space_def)

text \<open>
  C7, as amended. The extraction always ends, with a list without duplicates (the set in
  insertion order). For two texts that both end outside the head of a declaration (empty,
  or whose last character before the trailing white space is neither a word character
  nor a hyphen), the set of names extracted from \<open>a @ b\<close> is the set extracted from
  \<open>b @ a\<close>, and so it is for the concatenation of the source, with a line feed between
  the two texts: the union of the names of the two texts.
\<close>

theorem extractVariables_order:
  "(\<exists>xs. extractVariables css = Some xs \<and> distinct xs \<and> set xs = declared css) \<and>
   (clean_end a \<and> clean_end b \<longrightarrow>
      declared (a @ b) = declared (b @ a) \<and>
      declared (sourceCss a b) = declared (sourceCss b a) \<and>
      declared (sourceCss a b) = declared a \<union> declared b)"
proof (intro conjI impI)
  show "\<exists>xs. extractVariables css = Some xs \<and> distinct xs \<and> set xs = declared css"
    unfolding extractVariables_scan declared_def
    by (simp add: set_foldl_set_add distinct_foldl_set_add)
next
  assume c: "clean_end a \<and> clean_end b"
  then show "declared (a @ b) = declared (b @ a)"
    by (auto simp: declared_clean)
  have "declared (sourceCss x y) = declared x \<union> declared y" if "clean_end x" for x y
    unfolding sourceCss_def declared_clean[OF that] declared_newline ..
  with c show "declared (sourceCss a b) = declared (sourceCss b a)"
    and "declared (sourceCss a b) = declared a \<union> declared b" by auto
qed

lemmas ev = extractVariables_def exec_loop.simps set_add_def cssVariableRegex_def lit_def is_chr_def is_name_def is_word_def is_space_def

text \<open>
  C7, as stated, fails: a declaration can straddle the junction. \<^verbatim>\<open>--foo\<close> followed by
  \<^verbatim>\<open>: red;\<close> declares \<^verbatim>\<open>foo\<close>, in the other order nothing is declared; the line feed that
  the source puts between the texts is white space and changes nothing.
\<close>

theorem extractVariables_order_counterexample:
  "extractVariables (''--foo'' @ '': red;'') = Some [''foo''] \<and>
   extractVariables ('': red;'' @ ''--foo'') = Some [] \<and>
   extractVariables (sourceCss ''--foo'' '': red;'') = Some [''foo''] \<and>
   extractVariables (sourceCss '': red;'' ''--foo'') = Some []"
  by (simp add: ev sourceCss_def)

theorem extractVariables_order_witness:
  "clean_end ''.a { --x: 1; }\<newline>'' \<and> clean_end '':root { --y: 2; --x: 3 }'' \<and>
   declared (''.a { --x: 1; }\<newline>'' @ '':root { --y: 2; --x: 3 }'') =
   declared ('':root { --y: 2; --x: 3 }'' @ ''.a { --x: 1; }\<newline>'') \<and>
   declared (sourceCss ''.a { --x: 1; }\<newline>'' '':root { --y: 2; --x: 3 }'') =
   declared (sourceCss '':root { --y: 2; --x: 3 }'' ''.a { --x: 1; }\<newline>'') \<and>
   extractVariables (sourceCss ''.a { --x: 1; }\<newline>'' '':root { --y: 2; --x: 3 }'') = Some [''x'', ''y''] \<and>
   extractVariables (sourceCss '':root { --y: 2; --x: 3 }'' ''.a { --x: 1; }\<newline>'') = Some [''y'', ''x'']"
proof -
  have a: "clean_end ''.a { --x: 1; }\<newline>''"
    by (simp add: clean_end_def is_space_def is_name_def is_word_def)
  have b: "clean_end '':root { --y: 2; --x: 3 }''"
    by (simp add: clean_end_def is_space_def is_name_def is_word_def)
  have e1: "extractVariables (sourceCss ''.a { --x: 1; }\<newline>'' '':root { --y: 2; --x: 3 }'') = Some [''x'', ''y'']"
    by (simp add: ev sourceCss_def)
  have e2: "extractVariables (sourceCss '':root { --y: 2; --x: 3 }'' ''.a { --x: 1; }\<newline>'') = Some [''y'', ''x'']"
    by (simp add: ev sourceCss_def)
  from extractVariables_order[of "[]" "''.a { --x: 1; }\<newline>''" "'':root { --y: 2; --x: 3 }''"] a b e1 e2
  show ?thesis by blast
qed

section \<open>Custom properties: the preservation check\<close>

lemma accepts_space_colon:
  "accepts [Star Greedy is_space, One (is_chr CHR '':'')] st v \<longleftrightarrow>
   (\<exists>ws. v = ws @ '':'' \<and> list_all is_space ws)"
  by (simp add: is_chr_def)

lemma accepts_variablePattern:
  "accepts (variablePattern name) st w \<longleftrightarrow>
   (\<exists>ws. w = ''--'' @ name @ ws @ '':'' \<and> list_all is_space ws)"
  unfolding variablePattern_def accepts_lit accepts_space_colon by auto

lemma existsInTarget_iff: "existsInTarget targetCss name \<longleftrightarrow> contains_declaration targetCss name"
proof -
  have "existsInTarget targetCss name \<longleftrightarrow>
        (\<exists>pre w t. targetCss = pre @ w @ t \<and> accepts (variablePattern name) (True \<and> pre = []) w)"
    unfolding existsInTarget_def test_def using exec_Some_iff[of "variablePattern name" True targetCss]
    by auto
  also have "\<dots> \<longleftrightarrow> (\<exists>pre ws t. targetCss = pre @ (''--'' @ name @ ws @ '':'') @ t \<and> list_all is_space ws)"
    unfolding accepts_variablePattern by blast
  also have "\<dots> \<longleftrightarrow> contains_declaration targetCss name"
    unfolding contains_declaration_def by simp
  finally show ?thesis .
qed


lemma declaration_at_name:
  assumes "declaration_at u = Some (g, rest)"
  shows "g \<noteq> [] \<and> list_all is_name g"
proof -
  from assms obtain a b t where u: "u = a # b # t" and ne: "takeWhile is_name t \<noteq> []"
    and an: "after_name (takeWhile is_name t) (dropWhile is_name t) = Some (g, rest)"
    by (auto simp: declaration_at_def split: list.splits if_splits)
  from an have "g = takeWhile is_name t"
    by (auto simp: after_name_def split: list.splits if_splits)
  with ne show ?thesis by (auto simp: list_all_iff dest: set_takeWhileD)
qed

lemma exec_css_name:
  "exec cssVariableRegex st s = Some (g, rest) \<Longrightarrow> g \<noteq> [] \<and> list_all is_name g"
proof (induction s arbitrary: st)
  case Nil
  then show ?case by (simp add: exec_css_Nil del: exec.simps)
next
  case (Cons c s)
  show ?case
  proof (cases "declaration_at (c # s)")
    case None
    with Cons.prems have "exec cssVariableRegex False s = Some (g, rest)"
      by (simp only: exec_css_Cons option.case)
    then show ?thesis by (rule Cons.IH)
  next
    case (Some m)
    with Cons.prems have "declaration_at (c # s) = Some (g, rest)"
      by (simp only: exec_css_Cons option.case)
    then show ?thesis by (rule declaration_at_name)
  qed
qed

lemma scan_all_css_names:
  "x \<in> set (scan_all cssVariableRegex st s) \<Longrightarrow> x \<noteq> [] \<and> list_all is_name x"
proof (induction "length s" arbitrary: s st rule: less_induct)
  case less
  show ?case
  proof (cases "exec cssVariableRegex st s")
    case None
    with less.prems show ?thesis by (subst (asm) scan_all.simps) simp
  next
    case (Some m)
    obtain g rest where m: "m = (g, rest)" by (cases m)
    from exec_shorter[OF must_consume_css] Some m have lt: "length rest < length s" by blast
    from less.prems Some m lt have "x = g \<or> x \<in> set (scan_all cssVariableRegex False rest)"
      by (subst (asm) scan_all.simps) simp
    then show ?thesis
    proof
      assume "x = g"
      with exec_css_name Some m show ?thesis by blast
    next
      assume "x \<in> set (scan_all cssVariableRegex False rest)"
      with less.hyps[OF lt] show ?thesis .
    qed
  qed
qed

lemma extractVariables_set:
  "\<exists>names. extractVariables css = Some names \<and> set names = declared css"
  unfolding extractVariables_scan declared_def by (simp add: set_foldl_set_add)

lemma declared_after:
  assumes "pre = [] \<or> \<not> is_name (last pre)"
  shows "''primary'' \<in> declared (pre @ ''--primary: #fff;'' @ post)"
proof -
  let ?b = "''--primary: #fff;'' @ post"
  have j: "junction pre ?b"
    using assms by (auto simp: junction_def no_straddle_def is_space_def)
  have d: "declaration_at ?b = Some (''primary'', '' #fff;'' @ post)"
    by (simp add: declaration_at_def after_name_def is_name_def is_word_def is_space_def)
  have "exec cssVariableRegex True ?b = Some (''primary'', '' #fff;'' @ post)"
    using d by (simp only: append_Cons exec_css_Cons option.case)
  then have "scan_all cssVariableRegex True ?b =
             ''primary'' # scan_all cssVariableRegex False ('' #fff;'' @ post)"
    by (subst scan_all.simps) simp
  then have "''primary'' \<in> set (scan_all cssVariableRegex True ?b)" by simp
  then show ?thesis
    unfolding declared_def scan_all_css_append[OF j] by simp
qed

text \<open>
  C8, as amended. Every name extracted from the source is a non-empty run of word
  characters and hyphens, and for such a name the predicate passes exactly when the target
  text contains two hyphens, the name, white space or none, and a colon; otherwise it
  fails and reports the name as unpreserved. A source text in which \<^verbatim>\<open>--primary: #fff;\<close>
  stands at the start or after a character that cannot continue a name (neither a word
  character nor a hyphen) has \<^verbatim>\<open>primary\<close> among the extracted names.
\<close>

theorem preservation_check:
  "(extractVariables source = Some names \<and> name \<in> set names \<longrightarrow>
      name \<noteq> [] \<and> list_all is_name name \<and>
      (property4_body targetCss name = Inr True \<longleftrightarrow> contains_declaration targetCss name) \<and>
      (\<not> contains_declaration targetCss name \<longrightarrow>
         property4_body targetCss name = Inl (Unpreserved name))) \<and>
   (pre = [] \<or> \<not> is_name (last pre) \<longrightarrow>
      (\<exists>names. extractVariables (pre @ ''--primary: #fff;'' @ post) = Some names \<and>
         ''primary'' \<in> set names))"
proof (intro conjI impI)
  assume a: "extractVariables source = Some names \<and> name \<in> set names"
  with extractVariables_set[of source] have "name \<in> declared source" by auto
  then show "name \<noteq> []" and "list_all is_name name"
    unfolding declared_def using scan_all_css_names by blast+
  show "property4_body targetCss name = Inr True \<longleftrightarrow> contains_declaration targetCss name"
    by (simp add: property4_body_def existsInTarget_iff)
  show "property4_body targetCss name = Inl (Unpreserved name)"
    if "\<not> contains_declaration targetCss name"
    using that by (simp add: property4_body_def existsInTarget_iff)
next
  assume "pre = [] \<or> \<not> is_name (last pre)"
  from declared_after[OF this, of post] extractVariables_set[of "pre @ ''--primary: #fff;'' @ post"]
  show "\<exists>names. extractVariables (pre @ ''--primary: #fff;'' @ post) = Some names \<and>
         ''primary'' \<in> set names" by auto
qed

lemmas target_eval = property4_body_def existsInTarget_def variablePattern_def test_def lit_def
  is_chr_def is_space_def

text \<open>
  C8, as stated, fails in its example: a source text can contain \<^verbatim>\<open>--primary: #fff;\<close> as
  the end of the declaration of a longer name. Then \<^verbatim>\<open>primary\<close> is not extracted, and against
  a target without any declaration the check reports the longer name.
\<close>

theorem preservation_check_counterexample:
  "(\<exists>pre post. '':root { --brand--primary: #fff; }'' = pre @ ''--primary: #fff;'' @ post) \<and>
   extractVariables '':root { --brand--primary: #fff; }'' = Some [''brand--primary''] \<and>
   ''primary'' \<notin> set [''brand--primary''] \<and>
   property4 '':root { --brand--primary: #fff; }'' [] '':root { }'' (\<lambda>i. i) =
     Some (Failed (Unpreserved ''brand--primary''))"
proof -
  have c: "'':root { --brand--primary: #fff; }'' = '':root { --brand'' @ ''--primary: #fff;'' @ '' }''"
    by simp
  have e: "extractVariables '':root { --brand--primary: #fff; }'' = Some [''brand--primary'']"
    by (simp add: ev)
  have q: "property4_body '':root { }'' ''brand--primary'' = Inl (Unpreserved ''brand--primary'')"
    by (simp add: target_eval)
  have r: "property4 '':root { --brand--primary: #fff; }'' [] '':root { }'' (\<lambda>i. i) =
     Some (Failed (Unpreserved ''brand--primary''))"
  proof -
    have x: "extractVariables (sourceCss '':root { --brand--primary: #fff; }'' []) = Some [''brand--primary'']"
      by (simp add: ev sourceCss_def)
    show ?thesis
      unfolding property4_def x option.case
      by (subst fc_assert_nonempty, simp, subst hundred, rule runs_first_fails) (simp add: q)
  qed
  from c have "\<exists>pre post. '':root { --brand--primary: #fff; }'' = pre @ ''--primary: #fff;'' @ post"
    by blast
  with e r show ?thesis by simp
qed

theorem preservation_check_witness:
  "extractVariables '':root { --primary: #fff; }'' = Some [''primary''] \<and>
   property4_body '':root { --primary : #000; }'' ''primary'' = Inr True \<and>
   contains_declaration '':root { --primary : #000; }'' ''primary'' \<and>
   property4_body '':root { --secondary: #000; }'' ''primary'' = Inl (Unpreserved ''primary'') \<and>
   \<not> contains_declaration '':root { --secondary: #000; }'' ''primary'' \<and>
   property4 '':root { --primary: #fff; }'' [] '':root { --secondary: #000; }'' (\<lambda>i. i) =
     Some (Failed (Unpreserved ''primary''))"
proof -
  have e: "extractVariables '':root { --primary: #fff; }'' = Some [''primary'']"
    by (simp add: ev)
  have p: "property4_body '':root { --primary : #000; }'' ''primary'' = Inr True"
    by (simp add: target_eval)
  have q: "property4_body '':root { --secondary: #000; }'' ''primary'' = Inl (Unpreserved ''primary'')"
    by (simp add: target_eval)
  have r: "property4 '':root { --primary: #fff; }'' [] '':root { --secondary: #000; }'' (\<lambda>i. i) =
     Some (Failed (Unpreserved ''primary''))"
  proof -
    have x: "extractVariables (sourceCss '':root { --primary: #fff; }'' []) = Some [''primary'']"
      by (simp add: ev sourceCss_def)
    show ?thesis
      unfolding property4_def x option.case
      by (subst fc_assert_nonempty, simp, subst hundred, rule runs_first_fails) (simp add: q)
  qed
  from preservation_check[of "'':root { --primary: #fff; }''" "[''primary'']" "''primary''"
      "'':root { --primary : #000; }''" "[]" "[]"]
    preservation_check[of "'':root { --primary: #fff; }''" "[''primary'']" "''primary''"
      "'':root { --secondary: #000; }''" "[]" "[]"] e p q r
  show ?thesis by simp
qed

section \<open>The manifest check\<close>

lemmas version_eval = isValidVersion_def version_regex_def test_def is_digit_def is_chr_def is_range_prefix_def

lemmas manifest_eval = property3_body_def deps_or_empty_def sourceRadixPackages_def startsWith_def

text \<open>
  C6. For a name of the source manifest that begins with \<^verbatim>\<open>@radix-ui/\<close>, the predicate
  passes exactly when the name is a key of the target's dependencies and both version
  specifiers satisfy \<open>isValidVersion\<close>; the two versions are not compared with each
  other. A name that is no key of the target fails with \<open>AbsentInTarget\<close>.
\<close>

theorem property3_body_iff:
  assumes "name \<in> set (sourceRadixPackages s)"
  shows "\<exists>sv. map_of (deps_or_empty s) name = Some sv \<and>
     (property3_body s t name = Inr True \<longleftrightarrow>
        (\<exists>tv. map_of (deps_or_empty t) name = Some tv \<and> isValidVersion sv \<and> isValidVersion tv)) \<and>
     (map_of (deps_or_empty t) name = None \<longrightarrow>
        property3_body s t name = Inl (AbsentInTarget name))"
proof -
  from assms have "name \<in> fst ` set (deps_or_empty s)"
    by (auto simp: sourceRadixPackages_def)
  then obtain sv where sv: "map_of (deps_or_empty s) name = Some sv"
    by (metis map_of_eq_None_iff not_None_eq)
  then obtain sd where sd: "dependencies s = Some sd" "map_of sd name = Some sv"
    by (cases "dependencies s") (auto simp: deps_or_empty_def)
  have pass: "property3_body s t name = Inr True \<longleftrightarrow>
        (\<exists>tv. map_of (deps_or_empty t) name = Some tv \<and> isValidVersion sv \<and> isValidVersion tv)"
    using sd by (auto simp: property3_body_def split: option.splits)
  have absent: "map_of (deps_or_empty t) name = None \<longrightarrow>
        property3_body s t name = Inl (AbsentInTarget name)"
    by (simp add: property3_body_def)
  show ?thesis
    by (rule exI[of _ sv], intro conjI) (rule sv, rule pass, rule absent)
qed

theorem property3_body_iff_witness:
  "''@radix-ui/react-dialog'' \<in> set (sourceRadixPackages
      \<lparr>dependencies = Some [(''react'', ''^18.2.0''), (''@radix-ui/react-dialog'', ''^1.0.0'')]\<rparr>) \<and>
   property3_body
      \<lparr>dependencies = Some [(''react'', ''^18.2.0''), (''@radix-ui/react-dialog'', ''^1.0.0'')]\<rparr>
      \<lparr>dependencies = Some [(''@radix-ui/react-dialog'', ''^1.1.2'')]\<rparr>
      ''@radix-ui/react-dialog'' = Inr True \<and>
   property3_body
      \<lparr>dependencies = Some [(''react'', ''^18.2.0''), (''@radix-ui/react-dialog'', ''^1.0.0'')]\<rparr>
      \<lparr>dependencies = Some [(''react'', ''^19.0.0'')]\<rparr>
      ''@radix-ui/react-dialog'' = Inl (AbsentInTarget ''@radix-ui/react-dialog'')"
proof -
  let ?s = "\<lparr>dependencies = Some [(''react'', ''^18.2.0''), (''@radix-ui/react-dialog'', ''^1.0.0'')]\<rparr>"
  have m: "''@radix-ui/react-dialog'' \<in> set (sourceRadixPackages ?s)"
    by (simp add: sourceRadixPackages_def deps_or_empty_def startsWith_def)
  have v: "isValidVersion ''^1.0.0''" "isValidVersion ''^1.1.2''"
    by (simp_all add: version_eval)
  from property3_body_iff[OF m, of "\<lparr>dependencies = Some [(''@radix-ui/react-dialog'', ''^1.1.2'')]\<rparr>"]
    property3_body_iff[OF m, of "\<lparr>dependencies = Some [(''react'', ''^19.0.0'')]\<rparr>"] m v
  show ?thesis by (simp add: deps_or_empty_def)
qed

lemma map_of_const:
  "map_of (map (\<lambda>n. (n, v)) xs) n = (if n \<in> set xs then Some v else None)"
  by (induction xs) auto

lemma radix_length: "length radix_names = 30"
  by (simp add: radix_names_def)

lemma radix_universe: "sourceRadixPackages thirty_source = radix_names"
  by (simp add: sourceRadixPackages_def thirty_source_def deps_or_empty_def radix_names_def
      startsWith_def)

lemma radix_last: "radix_names ! 29 = ''@radix-ui/react-form''"
  by (simp add: radix_names_def)

lemma radix_absent: "''@radix-ui/react-form'' \<notin> set (butlast radix_names)"
  by (simp add: radix_names_def)

lemma radix_present: "k < 29 \<Longrightarrow> radix_names ! k \<in> set (butlast radix_names)"
  using nth_butlast[of k radix_names] nth_mem[of k "butlast radix_names"]
  by (simp add: radix_length)

lemma radix_noreact: "n \<in> set radix_names \<Longrightarrow> n \<noteq> ''react''"
  by (auto simp: radix_names_def)

lemma thirty_pass:
  assumes "k < 29"
  shows "property3_body thirty_source thirty_target (radix_names ! k) = Inr True"
proof -
  have v: "isValidVersion ''^1.0.0''" "isValidVersion ''^1.1.2''"
    by (simp_all add: version_eval)
  have m: "radix_names ! k \<in> set radix_names" using assms by (simp add: radix_length)
  from radix_present[OF assms] m radix_noreact[OF m] v show ?thesis
    by (simp add: property3_body_def thirty_source_def thirty_target_def deps_or_empty_def
        map_of_const)
qed

lemma thirty_fail:
  "property3_body thirty_source thirty_target ''@radix-ui/react-form'' =
     Inl (AbsentInTarget ''@radix-ui/react-form'')"
  using radix_absent
  by (simp add: property3_body_def thirty_target_def deps_or_empty_def map_of_const)

text \<open>
  C4, as stated, fails: the source has thirty Radix packages and the target all of them
  but the last. A run whose hundred draws are among the first twenty-nine packages passes;
  a run that draws the last one fails. No seed is configured, so both kinds of run happen
  on the same trees: of the runs that draw uniformly, about 3 in 100 miss a given one of
  thirty elements in a hundred draws.
\<close>

theorem two_runs_differ_counterexample:
  "sourceRadixPackages thirty_source = radix_names \<and> length radix_names = 30 \<and>
   property3 thirty_source thirty_target (\<lambda>i. i mod 29) = Some Passed \<and>
   property3 thirty_source thirty_target (\<lambda>i. i) =
     Some (Failed (AbsentInTarget ''@radix-ui/react-form''))"
proof -
  let ?p = "\<lambda>pkg. Some (property3_body thirty_source thirty_target pkg)"
  have ne: "radix_names \<noteq> []" using radix_length by auto
  have "runs radix_names ?p (\<lambda>i. i mod 29) 0 100 = Some Passed"
    unfolding runs_pass_iff radix_length by (simp add: thirty_pass)
  then have 1: "property3 thirty_source thirty_target (\<lambda>i. i mod 29) = Some Passed"
    unfolding property3_def radix_universe fc_assert_nonempty[OF ne] .
  have "runs radix_names ?p (\<lambda>i. i) 0 100 = Some (Failed (AbsentInTarget ''@radix-ui/react-form''))"
  proof (rule runs_fail_at[where j = 29])
    fix k :: nat assume "k < 29"
    then show "?p (radix_names ! ((0 + k) mod length radix_names)) = Some (Inr True)"
      unfolding radix_length by (simp add: thirty_pass)
  next
    show "?p (radix_names ! ((0 + 29) mod length radix_names)) =
          Some (Inl (AbsentInTarget ''@radix-ui/react-form''))"
      unfolding radix_length by (simp add: radix_last thirty_fail)
  qed simp
  then have 2: "property3 thirty_source thirty_target (\<lambda>i. i) =
     Some (Failed (AbsentInTarget ''@radix-ui/react-form''))"
    unfolding property3_def radix_universe fc_assert_nonempty[OF ne] .
  from radix_universe radix_length 1 2 show ?thesis by simp
qed

section \<open>Paths: normal forms\<close>

lemma split_path_nonempty: "split_path s \<noteq> []"
  by (induction s) (auto split: list.splits)

lemma split_path_noslash: "CHR ''/'' \<notin> set s \<Longrightarrow> split_path s = [s]"
  by (induction s) auto

lemma split_path_slash: "split_path (a @ CHR ''/'' # b) = split_path a @ split_path b"
proof (induction a)
  case Nil
  show ?case using split_path_noslash[of "[]"] by simp
next
  case (Cons c a)
  show ?case
  proof (cases "c = CHR ''/''")
    case True
    with Cons show ?thesis by simp
  next
    case False
    obtain seg segs where s: "split_path a = seg # segs"
      using split_path_nonempty[of a] by (cases "split_path a") auto
    with False Cons show ?thesis by simp
  qed
qed

lemma split_path_segments: "seg \<in> set (split_path s) \<Longrightarrow> CHR ''/'' \<notin> set seg"
proof (induction s arbitrary: seg)
  case Nil
  then show ?case by simp
next
  case (Cons c s)
  obtain x xs where s: "split_path s = x # xs"
    using split_path_nonempty[of s] by (cases "split_path s") auto
  with Cons show ?case by (auto split: if_splits)
qed

lemma split_path_abs:
  "list_all valid_name segs \<Longrightarrow> split_path (abs_path segs) = [] # segs"
proof (induction segs)
  case Nil
  show ?case by (simp add: abs_path_def)
next
  case (Cons seg segs)
  then have v: "CHR ''/'' \<notin> set seg" by (simp add: valid_name_def)
  have "abs_path (seg # segs) = [] @ CHR ''/'' # (seg @ abs_path segs)"
    by (simp add: abs_path_def)
  show ?case
  proof (cases segs)
    case Nil
    then show ?thesis using v split_path_slash[of "[]" seg] split_path_noslash[OF v]
      by (simp add: abs_path_def)
  next
    case (Cons t ts)
    have a: "abs_path (seg # segs) = [] @ CHR ''/'' # (seg @ CHR ''/'' # (t @ abs_path ts))"
      using Cons by (simp add: abs_path_def)
    have b: "abs_path segs = [] @ CHR ''/'' # (t @ abs_path ts)"
      using Cons by (simp add: abs_path_def)
    from Cons.IH Cons.prems have "split_path (abs_path segs) = [] # segs" by simp
    then have c: "split_path (t @ abs_path ts) = segs"
      unfolding b split_path_slash by simp
    show ?thesis
      unfolding a split_path_slash[of "[]"] split_path_slash[of seg] c
      using split_path_noslash[OF v] by simp
  qed
qed

lemma step_valid: "valid_name seg \<Longrightarrow> segment_step allow res seg = res @ [seg]"
  by (simp add: segment_step_def valid_name_def)

lemma foldl_step_valid:
  "list_all valid_name segs \<Longrightarrow> foldl (segment_step allow) res segs = res @ segs"
  by (induction segs arbitrary: res) (simp_all add: step_valid)

lemma step_empty: "segment_step allow res [] = res"
  by (simp add: segment_step_def)

lemma step_preserves:
  assumes "list_all valid_name res" and "CHR ''/'' \<notin> set seg"
  shows "list_all valid_name (segment_step False res seg)"
  using assms by (auto simp: segment_step_def valid_name_def list_all_iff dest: in_set_butlastD)

lemma foldl_step_preserves:
  assumes "list_all valid_name res" and "\<And>seg. seg \<in> set segs \<Longrightarrow> CHR ''/'' \<notin> set seg"
  shows "list_all valid_name (foldl (segment_step False) res segs)"
  using assms
proof (induction segs arbitrary: res)
  case Nil
  then show ?case by simp
next
  case (Cons seg segs)
  from Cons.prems have "list_all valid_name (segment_step False res seg)"
    by (intro step_preserves) simp_all
  with Cons show ?case by simp
qed

lemma stack_valid: "list_all valid_name (stack p)"
  unfolding stack_def by (rule foldl_step_preserves) (simp_all add: split_path_segments)

lemma stack_abs: "list_all valid_name segs \<Longrightarrow> stack (abs_path segs) = segs"
  unfolding stack_def by (simp add: split_path_abs step_empty foldl_step_valid)

lemma stack_append_slash:
  "stack (a @ CHR ''/'' # b) = foldl (segment_step False) (stack a) (split_path b)"
  unfolding stack_def split_path_slash by simp

lemma stack_root: "stack ''/'' = []"
  by (simp add: stack_def segment_step_def)

lemma join_slash_abs: "segs \<noteq> [] \<Longrightarrow> CHR ''/'' # join_slash segs = abs_path segs"
  by (induction segs rule: join_slash.induct) (simp_all add: abs_path_def)

lemma join_slash_Nil_iff:
  "list_all valid_name segs \<Longrightarrow> join_slash segs = [] \<longleftrightarrow> segs = []"
  by (induction segs rule: join_slash.induct) (simp_all add: valid_name_def)

lemma normalize_abs:
  assumes "p \<noteq> []" and "hd p = CHR ''/''"
  shows "normalize_path p =
     (if stack p = [] then ''/''
      else abs_path (stack p) @ (if last p = CHR ''/'' then ''/'' else []))"
proof -
  have n: "normalizeString p False = join_slash (stack p)"
    by (simp add: normalizeString_def stack_def)
  show ?thesis
  proof (cases "stack p = []")
    case True
    with assms n show ?thesis by (simp add: normalize_path_def)
  next
    case False
    with join_slash_Nil_iff[OF stack_valid, of p] have "join_slash (stack p) \<noteq> []" by simp
    with assms n False show ?thesis
      using join_slash_abs[OF False] by (simp add: normalize_path_def Let_def)
  qed
qed

lemma split_path_Nil: "split_path [] = [[]]"
  by simp

lemma stack_abs_slash: "list_all valid_name segs \<Longrightarrow> stack (abs_path segs @ ''/'') = segs"
  using stack_append_slash[of "abs_path segs" "[]"] by (simp add: stack_abs step_empty)

lemma abs_path_hd: "segs \<noteq> [] \<Longrightarrow> abs_path segs \<noteq> [] \<and> hd (abs_path segs) = CHR ''/''"
  by (cases segs) (simp_all add: abs_path_def)

lemma abs_path_last:
  "segs \<noteq> [] \<Longrightarrow> list_all valid_name segs \<Longrightarrow> last (abs_path segs) \<noteq> CHR ''/''"
proof (induction segs rule: rev_induct)
  case Nil
  then show ?case by simp
next
  case (snoc seg segs)
  then have "seg \<noteq> []" "CHR ''/'' \<notin> set seg" by (simp_all add: valid_name_def)
  then have "last seg \<noteq> CHR ''/''" using last_in_set by metis
  with \<open>seg \<noteq> []\<close> show ?case by (simp add: abs_path_def)
qed

text \<open>An absolute path in normal form: the root, or segments with or without a trailing slash.\<close>

lemma normalize_abs_cases:
  assumes "p \<noteq> []" and "hd p = CHR ''/''"
  shows "normalize_path p \<noteq> [] \<and> hd (normalize_path p) = CHR ''/'' \<and>
         stack (normalize_path p) = stack p \<and>
         (last (normalize_path p) = CHR ''/'' \<longleftrightarrow> stack p = [] \<or> last p = CHR ''/'')"
proof (cases "stack p = []")
  case True
  with normalize_abs[OF assms] show ?thesis by (simp add: stack_root)
next
  case False
  note v = stack_valid[of p]
  show ?thesis
  proof (cases "last p = CHR ''/''")
    case True
    with False normalize_abs[OF assms] have n: "normalize_path p = abs_path (stack p) @ ''/''"
      by simp
    from abs_path_hd[OF False] have "hd (abs_path (stack p) @ ''/'') = CHR ''/''" by simp
    with n True False stack_abs_slash[OF v] show ?thesis by simp
  next
    case nt: False
    with False normalize_abs[OF assms] have n: "normalize_path p = abs_path (stack p)"
      by simp
    with nt False abs_path_hd[OF False] abs_path_last[OF False v] stack_abs[OF v]
    show ?thesis by simp
  qed
qed

lemma join2: "a \<noteq> [] \<Longrightarrow> b \<noteq> [] \<Longrightarrow> join [a, b] = normalize_path (a @ CHR ''/'' # b)"
  by (simp add: join_def)

lemma join3:
  "a \<noteq> [] \<Longrightarrow> b \<noteq> [] \<Longrightarrow> c \<noteq> [] \<Longrightarrow>
   join [a, b, c] = normalize_path (a @ CHR ''/'' # b @ CHR ''/'' # c)"
  by (simp add: join_def)

lemma join2_abs:
  assumes "a \<noteq> []" and "hd a = CHR ''/''" and "b \<noteq> []"
  shows "join [a, b] \<noteq> [] \<and> hd (join [a, b]) = CHR ''/'' \<and>
         stack (join [a, b]) = foldl (segment_step False) (stack a) (split_path b) \<and>
         (last (join [a, b]) = CHR ''/'' \<longleftrightarrow>
            foldl (segment_step False) (stack a) (split_path b) = [] \<or> last b = CHR ''/'')"
proof -
  let ?p = "a @ CHR ''/'' # b"
  have p: "?p \<noteq> []" "hd ?p = CHR ''/''" using assms by simp_all
  have l: "last ?p = last b" using assms by simp
  from normalize_abs_cases[OF p] show ?thesis
    unfolding join2[OF assms(1,3)] stack_append_slash l by simp
qed

lemma noslash_last: "n \<noteq> [] \<Longrightarrow> CHR ''/'' \<notin> set n \<Longrightarrow> last n \<noteq> CHR ''/''"
  using last_in_set by metis

lemma valid_src: "valid_name ''src''" and valid_components: "valid_name ''components''"
  by (simp_all add: valid_name_def)

lemma split_src_components: "split_path ''src/components'' = [''src'', ''components'']"
  by simp

lemma join_dir_name:
  assumes "segs \<noteq> []" and "list_all valid_name segs" and "valid_name n"
  shows "join [abs_path segs, n] = abs_path (segs @ [n])"
proof -
  have n: "n \<noteq> []" "CHR ''/'' \<notin> set n" using assms(3) by (simp_all add: valid_name_def)
  have a: "abs_path segs \<noteq> []" "hd (abs_path segs) = CHR ''/''"
    using abs_path_hd[OF assms(1)] by simp_all
  let ?p = "abs_path segs @ CHR ''/'' # n"
  have st: "stack ?p = segs @ [n]"
    unfolding stack_append_slash stack_abs[OF assms(2)] split_path_noslash[OF n(2)]
    using assms(3) by (simp add: step_valid)
  have "last ?p \<noteq> CHR ''/''" using n noslash_last[of n] by simp
  with st normalize_abs[of ?p] a show ?thesis
    unfolding join2[OF a(1) n(1)] by simp
qed

lemma components_dir:
  assumes "root \<noteq> []" and "hd root = CHR ''/''"
  shows "join [root, ''src/components''] = abs_path (stack root @ [''src'', ''components''])"
proof -
  let ?p = "root @ CHR ''/'' # ''src/components''"
  have st: "stack ?p = stack root @ [''src'', ''components'']"
    unfolding stack_append_slash split_src_components
    by (simp add: step_valid valid_src valid_components)
  have "?p \<noteq> []" "hd ?p = CHR ''/''" "last ?p \<noteq> CHR ''/''" using assms by simp_all
  with st normalize_abs[of ?p] show ?thesis
    unfolding join2[OF assms(1), of "''src/components''", simplified] by simp
qed

lemma roots_abs:
  assumes "dirname \<noteq> []" and "hd dirname = CHR ''/''"
  shows "sourceRoot dirname \<noteq> [] \<and> hd (sourceRoot dirname) = CHR ''/''"
    and "targetRoot dirname \<noteq> [] \<and> hd (targetRoot dirname) = CHR ''/''"
  using join2_abs[OF assms, of "''../../''"] join2_abs[OF assms, of "''../''"]
  by (simp_all add: sourceRoot_def targetRoot_def)

lemma sourceComponentsDir_abs:
  assumes "dirname \<noteq> []" and "hd dirname = CHR ''/''"
  shows "sourceComponentsDir dirname =
         abs_path (stack (sourceRoot dirname) @ [''src'', ''components''])"
  unfolding sourceComponentsDir_def using roots_abs(1)[OF assms] by (intro components_dir) simp_all

lemma targetComponentsDir_abs:
  assumes "dirname \<noteq> []" and "hd dirname = CHR ''/''"
  shows "targetComponentsDir dirname =
         abs_path (stack (targetRoot dirname) @ [''src'', ''components''])"
  unfolding targetComponentsDir_def using roots_abs(2)[OF assms] by (intro components_dir) simp_all

lemma split_join_slash:
  "names \<noteq> [] \<Longrightarrow> list_all valid_name names \<Longrightarrow> split_path (join_slash names) = names"
proof (induction names rule: join_slash.induct)
  case 1
  then show ?case by simp
next
  case (2 seg)
  then show ?case by (simp add: split_path_noslash valid_name_def)
next
  case (3 seg t segs)
  then have v: "CHR ''/'' \<notin> set seg" by (simp add: valid_name_def)
  have "join_slash (seg # t # segs) = seg @ CHR ''/'' # join_slash (t # segs)" by simp
  with 3 show ?case
    unfolding \<open>join_slash (seg # t # segs) = seg @ CHR ''/'' # join_slash (t # segs)\<close> split_path_slash
    by (simp add: split_path_noslash[OF v])
qed

lemma join_slash_last:
  "names \<noteq> [] \<Longrightarrow> list_all valid_name names \<Longrightarrow>
   join_slash names \<noteq> [] \<and> last (join_slash names) \<noteq> CHR ''/''"
proof (induction names rule: join_slash.induct)
  case 1
  then show ?case by simp
next
  case (2 seg)
  then have "seg \<noteq> []" "CHR ''/'' \<notin> set seg" by (simp_all add: valid_name_def)
  then show ?case using noslash_last[of seg] by simp
next
  case (3 seg t segs)
  then show ?case by simp
qed

lemma abs_path_append: "abs_path (xs @ ys) = abs_path xs @ abs_path ys"
  by (simp add: abs_path_def)

lemma abs_path_names:
  "names \<noteq> [] \<Longrightarrow> abs_path (segs @ names) = abs_path segs @ CHR ''/'' # join_slash names"
  by (simp add: abs_path_append join_slash_abs)

lemma join_dir_rel:
  assumes "segs \<noteq> []" and "list_all valid_name segs"
    and "names \<noteq> []" and "list_all valid_name names"
  shows "join [abs_path segs, join_slash names] = abs_path (segs @ names)"
proof -
  note r = join_slash_last[OF assms(3,4)]
  have a: "abs_path segs \<noteq> []" "hd (abs_path segs) = CHR ''/''"
    using abs_path_hd[OF assms(1)] by simp_all
  let ?p = "abs_path segs @ CHR ''/'' # join_slash names"
  have st: "stack ?p = segs @ names"
    unfolding stack_append_slash stack_abs[OF assms(2)] split_join_slash[OF assms(3,4)]
    by (rule foldl_step_valid[OF assms(4)])
  have "last ?p \<noteq> CHR ''/''" using r by simp
  with st normalize_abs[of ?p] a assms(3) show ?thesis
    unfolding join2[OF a(1) conjunct1[OF r]] by simp
qed

lemma join3_components:
  assumes "root \<noteq> []" and "hd root = CHR ''/''"
    and "names \<noteq> []" and "list_all valid_name names"
  shows "join [root, ''src/components'', join_slash names] =
         abs_path (stack root @ [''src'', ''components''] @ names)"
proof -
  note r = join_slash_last[OF assms(3,4)]
  let ?p = "root @ CHR ''/'' # ''src/components'' @ CHR ''/'' # join_slash names"
  have "?p = (root @ CHR ''/'' # ''src/components'') @ CHR ''/'' # join_slash names" by simp
  then have "stack ?p = foldl (segment_step False)
      (stack (root @ CHR ''/'' # ''src/components'')) (split_path (join_slash names))"
    using stack_append_slash[of "root @ CHR ''/'' # ''src/components''" "join_slash names"]
    by simp
  also have "stack (root @ CHR ''/'' # ''src/components'') = stack root @ [''src'', ''components'']"
    unfolding stack_append_slash split_src_components
    by (simp add: step_valid valid_src valid_components)
  finally have st: "stack ?p = stack root @ [''src'', ''components''] @ names"
    unfolding split_join_slash[OF assms(3,4)] foldl_step_valid[OF assms(4)] by simp
  have "?p \<noteq> []" "hd ?p = CHR ''/''" "last ?p \<noteq> CHR ''/''" using assms r by simp_all
  with st normalize_abs[of ?p] show ?thesis
    unfolding join3[OF assms(1) _ conjunct1[OF r], of "''src/components''", simplified] by simp
qed

lemma resolve_abs:
  assumes "segs \<noteq> []" and "list_all valid_name segs"
  shows "resolve cwd (abs_path segs) = abs_path segs"
proof -
  have "normalizeString (abs_path segs) False = join_slash segs"
    by (simp add: normalizeString_def stack_abs[OF assms(2), unfolded stack_def])
  with abs_path_hd[OF assms(1)] join_slash_abs[OF assms(1)] show ?thesis
    by (simp add: resolve_def)
qed

lemma common_prefix_same:
  "fst (common_prefix xs (xs @ ys) i sep) = i + length xs"
proof (induction xs arbitrary: i sep)
  case Nil
  show ?case by (cases ys) simp_all
next
  case (Cons a xs)
  then show ?case by simp
qed

lemma relative_under:
  assumes "segs \<noteq> []" and "list_all valid_name segs"
    and "names \<noteq> []" and "list_all valid_name names"
  shows "relative cwd (abs_path segs) (abs_path (segs @ names)) = join_slash names"
proof -
  let ?D = "abs_path segs" and ?rel = "join_slash names"
  let ?to = "abs_path (segs @ names)"
  have to: "?to = ?D @ CHR ''/'' # ?rel" by (rule abs_path_names[OF assms(3)])
  have sv: "segs @ names \<noteq> []" "list_all valid_name (segs @ names)" using assms by simp_all
  have D: "?D \<noteq> []" "hd ?D = CHR ''/''" using abs_path_hd[OF assms(1)] by simp_all
  then obtain d where d: "?D = CHR ''/'' # d" by (cases ?D) auto
  have ne: "?D \<noteq> ?to" unfolding to by simp
  obtain i sep where c: "common_prefix (drop 1 ?D) (drop 1 ?to) 0 (- 1) = (i, sep)"
    by (cases "common_prefix (drop 1 ?D) (drop 1 ?to) 0 (- 1)")
  have "drop 1 ?to = drop 1 ?D @ CHR ''/'' # ?rel" unfolding to d by simp
  with common_prefix_same[of "drop 1 ?D" "CHR ''/'' # ?rel" 0 "- 1"] c
  have i: "i = length ?D - 1" by simp
  have nth: "?to ! (1 + i) = CHR ''/''" unfolding to i using D by (simp add: nth_append d)
  have dr: "drop (1 + i + 1) ?to = ?rel" unfolding to i using D by (simp add: d)
  have len: "min (length ?D - 1) (length ?to - 1) = length ?D - 1" "length ?to - 1 > length ?D - 1"
    unfolding to using D by (simp_all add: d)
  show ?thesis
    unfolding relative_def resolve_abs[OF assms(1,2)] resolve_abs[OF sv] Let_def c
    using ne nth dr len i by simp
qed

lemma basename_abs:
  assumes "valid_name n"
  shows "basename (abs_path (segs @ [n])) = n"
proof -
  from assms have n: "n \<noteq> []" "CHR ''/'' \<notin> set n" by (simp_all add: valid_name_def)
  have r: "rev (abs_path (segs @ [n])) = rev n @ CHR ''/'' # rev (abs_path segs)"
    by (simp add: abs_path_append abs_path_def)
  have h: "hd (rev n) \<noteq> CHR ''/''" using noslash_last[OF n] n(1) by (simp add: hd_rev)
  have d: "dropWhile (\<lambda>c. c = CHR ''/'') (rev n @ CHR ''/'' # rev (abs_path segs)) =
           rev n @ CHR ''/'' # rev (abs_path segs)"
    using h n(1) by (cases "rev n") simp_all
  have t: "takeWhile (\<lambda>c. c \<noteq> CHR ''/'') (rev n @ CHR ''/'' # rev (abs_path segs)) = rev n"
    using n(2) by (simp add: takeWhile_append)
  show ?thesis unfolding basename_def r d t by simp
qed

lemma extname_basename: "basename p = basename q \<Longrightarrow> extname p = extname q"
  by (simp add: extname_def)

lemma includes_sub_here: "includes_sub (sub @ b) sub"
proof (cases "sub @ b")
  case Nil
  then show ?thesis by simp
next
  case (Cons c s)
  have "take (length sub) (sub @ b) = sub" by simp
  with Cons show ?thesis by (simp add: startsWith_def)
qed

lemma includes_sub_append: "includes_sub (a @ sub @ b) sub"
  by (induction a) (simp_all add: includes_sub_here)

section \<open>The walker: the paths it yields\<close>

lemma wf_entries_map_of:
  "wf_entries entries \<Longrightarrow> map_of entries seg = Some child \<Longrightarrow> wf_node child"
  by (induction entries) (auto split: if_splits)

lemma lookup_wf: "wf_node n \<Longrightarrow> lookup n segs = Some m \<Longrightarrow> wf_node m"
proof (induction n segs rule: lookup.induct)
  case (1 n)
  then show ?case by simp
next
  case (2 content seg segs)
  then show ?case by simp
next
  case (3 entries seg segs)
  then obtain child where c: "map_of entries seg = Some child" "lookup child segs = Some m"
    by (auto split: option.splits)
  from "3.prems"(1) c(1) have "wf_node child" by (simp add: wf_entries_map_of)
  from "3.IH"[OF c(1) this c(2)] show ?case .
qed

lemma under_deeper:
  assumes "valid_name file"
  shows "p = abs_path (segs @ [file]) \<or> under (segs @ [file]) p \<Longrightarrow> under segs p"
proof (erule disjE)
  assume "p = abs_path (segs @ [file])"
  with assms have "[file] \<noteq> [] \<and> list_all valid_name [file] \<and> p = abs_path (segs @ [file])"
    by simp
  then show ?thesis unfolding under_def by blast
next
  assume "under (segs @ [file]) p"
  then obtain names where n: "names \<noteq> []" "list_all valid_name names"
    "p = abs_path ((segs @ [file]) @ names)" unfolding under_def by blast
  with assms have "file # names \<noteq> [] \<and> list_all valid_name (file # names) \<and>
    p = abs_path (segs @ file # names)" by simp
  then show ?thesis unfolding under_def by blast
qed

lemma walker_shape:
  "(wf_entries files \<longrightarrow> (\<forall>segs. dirPath = abs_path segs \<longrightarrow> segs \<noteq> [] \<longrightarrow>
       list_all valid_name segs \<longrightarrow>
       (\<forall>p \<in> set (getAllFiles dirPath files acc). p \<in> set acc \<or> under segs p)))"
  "(wf_node n \<longrightarrow> (\<forall>segs. filePath = abs_path segs \<longrightarrow> segs \<noteq> [] \<longrightarrow>
       list_all valid_name segs \<longrightarrow>
       (\<forall>p \<in> set (visit filePath n acc). p \<in> set acc \<or> p = abs_path segs \<or> under segs p)))"
proof (induction dirPath files acc and filePath n acc rule: getAllFiles_visit.induct)
  case (1 dirPath arrayOfFiles)
  show ?case by simp
next
  case (2 dirPath fname child files arrayOfFiles)
  show ?case
  proof (intro impI allI ballI)
    fix segs p
    assume wf: "wf_entries ((fname, child) # files)"
      and d: "dirPath = abs_path segs" "segs \<noteq> []" "list_all valid_name segs"
      and p: "p \<in> set (getAllFiles dirPath ((fname, child) # files) arrayOfFiles)"
    from wf have v: "valid_name fname" "wf_node child" "wf_entries files" by simp_all
    have j: "join [dirPath, fname] = abs_path (segs @ [fname])"
      unfolding d(1) by (rule join_dir_name[OF d(2,3) v(1)])
    let ?acc = "visit (join [dirPath, fname]) child arrayOfFiles"
    from p have "p \<in> set (getAllFiles dirPath files ?acc)" by simp
    with "2.IH"(2) v(3) d have "p \<in> set ?acc \<or> under segs p" by blast
    then show "p \<in> set arrayOfFiles \<or> under segs p"
    proof
      assume "under segs p"
      then show ?thesis ..
    next
      assume "p \<in> set ?acc"
      moreover have "segs @ [fname] \<noteq> []" "list_all valid_name (segs @ [fname])"
        using d v by simp_all
      ultimately have "p \<in> set arrayOfFiles \<or> p = abs_path (segs @ [fname]) \<or>
          under (segs @ [fname]) p"
        using "2.IH"(1) v(2) j by blast
      with under_deeper[OF v(1)] show ?thesis by blast
    qed
  qed
next
  case (3 filePath entries arrayOfFiles)
  then show ?case by auto
next
  case (4 filePath content arrayOfFiles)
  show ?case by simp
qed

lemma files_under_shape:
  assumes "wf_node root" and "segs \<noteq> []" and "list_all valid_name segs"
    and "files_under root (abs_path segs) = Inr files" and "p \<in> set files"
  shows "under segs p"
proof -
  from assms(4,5) obtain entries where e: "lookup root (segments (abs_path segs)) = Some (Dir entries)"
    and f: "files = getAllFiles (abs_path segs) entries []"
    by (auto simp: files_under_def split: if_splits option.splits node.splits)
  from lookup_wf[OF assms(1) e] have "wf_entries entries" by simp
  with walker_shape(1)[of entries "abs_path segs" "[]"] assms(2,3,5) f show ?thesis by auto
qed

section \<open>Property 1: the target path\<close>

text \<open>
  C9. For a file that the walker yields below the source components directory, the target
  path is the target components directory joined with the path of the file relative to
  the source components directory. Its base name and its extension are those of the
  source file, so the two expectations on them never fail, and the predicate passes
  exactly when the target path exists.
\<close>

theorem property1_by_construction:
  assumes "dirname \<noteq> []" and "hd dirname = CHR ''/''" and "wf_node root"
    and "files_under root (sourceComponentsDir dirname) = Inr allSourceFiles"
    and "sourceFilePath \<in> set allSourceFiles"
  shows "\<exists>rel. sourceFilePath = sourceComponentsDir dirname @ ''/'' @ rel \<and>
           relative cwd (sourceComponentsDir dirname) sourceFilePath = rel \<and>
           targetPath cwd dirname sourceFilePath = join [targetComponentsDir dirname, rel] \<and>
           basename (targetPath cwd dirname sourceFilePath) = basename sourceFilePath \<and>
           extname (targetPath cwd dirname sourceFilePath) = extname sourceFilePath \<and>
           property1_body root cwd dirname sourceFilePath =
             (if existsSync root (targetPath cwd dirname sourceFilePath) then Inr True
              else Inl (MissingInTarget (targetPath cwd dirname sourceFilePath)))"
proof -
  let ?S = "stack (sourceRoot dirname) @ [''src'', ''components'']"
  let ?T = "stack (targetRoot dirname) @ [''src'', ''components'']"
  have S: "?S \<noteq> []" "list_all valid_name ?S"
    using stack_valid[of "sourceRoot dirname"] by (simp_all add: valid_src valid_components)
  have T: "?T \<noteq> []" "list_all valid_name ?T"
    using stack_valid[of "targetRoot dirname"] by (simp_all add: valid_src valid_components)
  note D = sourceComponentsDir_abs[OF assms(1,2)]
  note TD = targetComponentsDir_abs[OF assms(1,2)]
  from files_under_shape[OF assms(3) S assms(4)[unfolded D] assms(5)]
  obtain names where n: "names \<noteq> []" "list_all valid_name names"
    and p: "sourceFilePath = abs_path (?S @ names)" unfolding under_def by blast
  let ?rel = "join_slash names"
  have 1: "sourceFilePath = sourceComponentsDir dirname @ ''/'' @ ?rel"
    unfolding p D using abs_path_names[OF n(1), of ?S] by simp
  have 2: "relative cwd (sourceComponentsDir dirname) sourceFilePath = ?rel"
    unfolding p D by (rule relative_under[OF S n])
  have tp: "targetPath cwd dirname sourceFilePath = abs_path (?T @ names)"
    unfolding targetPath_def 2
    using join3_components[OF conjunct1[OF roots_abs(2)[OF assms(1,2)]]
        conjunct2[OF roots_abs(2)[OF assms(1,2)]] n] by simp
  have 3: "targetPath cwd dirname sourceFilePath = join [targetComponentsDir dirname, ?rel]"
    unfolding tp TD join_dir_rel[OF T n] ..
  have vl: "valid_name (last names)" using n by (simp add: list_all_iff)
  have nl: "names = butlast names @ [last names]" using n(1) by simp
  have bt: "basename (abs_path (?T @ names)) = last names"
    using basename_abs[OF vl, of "?T @ butlast names"] nl by (metis append_assoc)
  have bs: "basename (abs_path (?S @ names)) = last names"
    using basename_abs[OF vl, of "?S @ butlast names"] nl by (metis append_assoc)
  have 4: "basename (targetPath cwd dirname sourceFilePath) = basename sourceFilePath"
  proof -
    have "basename (targetPath cwd dirname sourceFilePath) = last names"
      unfolding tp by (rule bt)
    moreover have "basename sourceFilePath = last names"
      unfolding p by (rule bs)
    ultimately show ?thesis by simp
  qed
  have 5: "extname (targetPath cwd dirname sourceFilePath) = extname sourceFilePath"
    by (rule extname_basename[OF 4])
  have "sourceFilePath =
        abs_path (stack (sourceRoot dirname)) @ ''/src/components/'' @ ?rel"
    unfolding p using abs_path_names[OF n(1), of ?S] by (simp add: abs_path_append abs_path_def)
  then have inc: "includes_sub sourceFilePath ''/src/components/''"
    by (simp only: includes_sub_append)
  have 6: "property1_body root cwd dirname sourceFilePath =
             (if existsSync root (targetPath cwd dirname sourceFilePath) then Inr True
              else Inl (MissingInTarget (targetPath cwd dirname sourceFilePath)))"
    unfolding property1_body_def Let_def using inc 4 5 by simp
  from 1 2 3 4 5 6 show ?thesis by blast
qed

theorem property1_by_construction_witness:
  "wf_node example_tree \<and>
   files_under example_tree (sourceComponentsDir ''/proj/app/tests'') =
     Inr [''/proj/src/components/Navbar.tsx'', ''/proj/src/components/ui/button.tsx''] \<and>
   targetPath ''/'' ''/proj/app/tests'' ''/proj/src/components/Navbar.tsx'' =
     ''/proj/app/src/components/Navbar.tsx'' \<and>
   property1_body example_tree ''/'' ''/proj/app/tests'' ''/proj/src/components/Navbar.tsx'' =
     Inr True \<and>
   targetPath ''/'' ''/proj/app/tests'' ''/proj/src/components/ui/button.tsx'' =
     ''/proj/app/src/components/ui/button.tsx'' \<and>
   property1_body example_tree ''/'' ''/proj/app/tests'' ''/proj/src/components/ui/button.tsx'' =
     Inl (MissingInTarget ''/proj/app/src/components/ui/button.tsx'')"
proof -
  have d: "''/proj/app/tests'' \<noteq> []" "hd ''/proj/app/tests'' = CHR ''/''" by simp_all
  have w: "wf_node example_tree" by code_simp
  have f: "files_under example_tree (sourceComponentsDir ''/proj/app/tests'') =
     Inr [''/proj/src/components/Navbar.tsx'', ''/proj/src/components/ui/button.tsx'']"
    by code_simp
  have t1: "targetPath ''/'' ''/proj/app/tests'' ''/proj/src/components/Navbar.tsx'' =
     ''/proj/app/src/components/Navbar.tsx''" by code_simp
  have t2: "targetPath ''/'' ''/proj/app/tests'' ''/proj/src/components/ui/button.tsx'' =
     ''/proj/app/src/components/ui/button.tsx''" by code_simp
  have e1: "existsSync example_tree ''/proj/app/src/components/Navbar.tsx''" by code_simp
  have e2: "\<not> existsSync example_tree ''/proj/app/src/components/ui/button.tsx''" by code_simp
  from property1_by_construction[OF d w f, of "''/proj/src/components/Navbar.tsx''" "''/''"]
  have 1: "property1_body example_tree ''/'' ''/proj/app/tests'' ''/proj/src/components/Navbar.tsx'' =
     Inr True" unfolding t1 using e1 by simp
  from property1_by_construction[OF d w f, of "''/proj/src/components/ui/button.tsx''" "''/''"]
  have 2: "property1_body example_tree ''/'' ''/proj/app/tests'' ''/proj/src/components/ui/button.tsx'' =
     Inl (MissingInTarget ''/proj/app/src/components/ui/button.tsx'')"
    unfolding t2 using e2 by simp
  from w f t1 t2 1 2 show ?thesis by simp
qed

section \<open>Import extraction\<close>

lemma matches_lit:
  "matches (lit x @ r) st cap w cap' \<longleftrightarrow>
   (\<exists>v. w = x @ v \<and> matches r (st \<and> x = []) (foldl push cap x) v cap')"
proof (induction x arbitrary: st w cap)
  case Nil
  show ?case by (simp add: lit_def)
next
  case (Cons a x)
  have "matches (lit (a # x) @ r) st cap w cap' \<longleftrightarrow>
        (\<exists>c w'. w = c # w' \<and> c = a \<and> matches (lit x @ r) False (push cap c) w' cap')"
    by (simp add: lit_def is_chr_def)
  also have "\<dots> \<longleftrightarrow> (\<exists>v. w = (a # x) @ v \<and> matches r (st \<and> a # x = []) (foldl push cap (a # x)) v cap')"
    unfolding Cons.IH by auto
  finally show ?case .
qed

lemma matches_specifier:
  "matches [GroupOpen, Plus Lazy is_dot, GroupClose, One is_quote] st cap v cap' \<longleftrightarrow>
   (\<exists>ref q2. v = ref @ [q2] \<and> ref \<noteq> [] \<and> list_all is_dot ref \<and> is_quote q2 \<and>
      cap' = (False, ref))"
  by (auto simp: foldl_push_open)

lemma matches_from_tail:
  "matches (lit ''from'' @ [Plus Greedy is_space, One is_quote,
                     GroupOpen, Plus Lazy is_dot, GroupClose, One is_quote]) st (False, []) v cap' \<longleftrightarrow>
   (\<exists>ws3 q1 ref q2. v = ''from'' @ ws3 @ [q1] @ ref @ [q2] \<and> ws3 \<noteq> [] \<and> list_all is_space ws3 \<and>
      is_quote q1 \<and> ref \<noteq> [] \<and> list_all is_dot ref \<and> is_quote q2 \<and> cap' = (False, ref))"
  unfolding matches_lit matches.simps(8) matches.simps(5) matches_specifier foldl_push_closed
  by (simp add: foldl_push_closed) blast

lemma matches_import_head:
  "matches (lit ''import'' @ [Plus Greedy is_space, Star Lazy is_dot, Plus Greedy is_space] @ r)
     st (False, []) w cap' \<longleftrightarrow>
   (\<exists>ws1 clause ws2 v. w = ''import'' @ ws1 @ clause @ ws2 @ v \<and>
       ws1 \<noteq> [] \<and> list_all is_space ws1 \<and> list_all is_dot clause \<and>
       ws2 \<noteq> [] \<and> list_all is_space ws2 \<and> matches r False (False, []) v cap')"
  unfolding matches_lit
  apply (simp add: foldl_push_closed)
  apply (rule iffI)
   apply (elim exE conjE)
  subgoal for v u va ua vb uc vc
    by (rule exI[of _ u], rule exI[of _ ua], rule exI[of _ uc], rule exI[of _ vc]) simp
  apply (elim exE conjE)
  subgoal for ws1 clause ws2 v
    apply (rule exI[of _ "ws1 @ clause @ ws2 @ v"], simp)
    apply (rule exI[of _ ws1], rule exI[of _ "clause @ ws2 @ v"], simp)
    apply (rule exI[of _ clause], rule exI[of _ "ws2 @ v"], simp)
    apply (rule exI[of _ ws2], rule exI[of _ v], simp)
    done
  done

lemma matches_importRegex:
  "matches importRegex st (False, []) w cap' \<longleftrightarrow>
   import_statement w (snd cap') \<and> fst cap' = False"
proof -
  let ?tail = "lit ''from'' @ [Plus Greedy is_space, One is_quote,
                     GroupOpen, Plus Lazy is_dot, GroupClose, One is_quote]"
  have r: "importRegex = lit ''import'' @ [Plus Greedy is_space, Star Lazy is_dot, Plus Greedy is_space] @ ?tail"
    by (simp add: importRegex_def)
  show ?thesis
    unfolding r matches_import_head matches_from_tail import_statement_def
    apply (cases cap')
    apply (rule iffI)
     apply (elim exE conjE)
    subgoal for a b ws1 clause ws2 v ws3 q1 ref q2
      apply (rule conjI)
       apply (rule exI[of _ ws1], rule exI[of _ clause], rule exI[of _ ws2], rule exI[of _ ws3],
          rule exI[of _ q1], rule exI[of _ q2])
       apply simp
      apply simp
      done
    apply (elim exE conjE)
    subgoal for a b ws1 clause ws2 ws3 q1 q2
      by (rule exI[of _ ws1], rule exI[of _ clause], rule exI[of _ ws2],
          rule exI[of _ "''from'' @ ws3 @ [q1] @ b @ [q2]"]) simp
    done
qed

lemma must_consume_import: "must_consume importRegex"
  by (simp add: importRegex_def lit_def)

lemma foldl_array_push: "foldl array_push out xs = out @ xs"
  by (induction xs arbitrary: out) (simp_all add: array_push_def)

lemma extractImports_scan: "extractImports content = Some (scan_all importRegex True content)"
  unfolding extractImports_def exec_loop_scan_all[OF must_consume_import] foldl_array_push by simp

lemma import_statement_st: "matches importRegex st (False, []) w cap' \<Longrightarrow> import_statement w (snd cap')"
  by (simp add: matches_importRegex)

lemma import_statement_found:
  assumes "content = pre @ text @ post" and "import_statement text ref"
  shows "exec importRegex st content \<noteq> None"
proof -
  from assms(2) have "matches importRegex (st \<and> pre = []) (False, []) text (False, ref)"
    by (simp add: matches_importRegex)
  then have "accepts importRegex (st \<and> pre = []) text" by (rule matches_accepts)
  with assms(1) have "\<exists>pre w t. content = pre @ w @ t \<and> accepts importRegex (st \<and> pre = []) w"
    by blast
  then show ?thesis unfolding exec_Some_iff[symmetric] by simp
qed

text \<open>
  C10, as amended. The extraction ends, and every reference it yields is the specifier of
  an import statement in the text: \<^verbatim>\<open>import\<close>, white space, a clause, white space,
  \<^verbatim>\<open>from\<close>, white space, the quoted specifier, where the clause and the specifier have no
  line terminator; the white space may have line breaks. It yields a reference exactly
  when the text contains such a statement.
\<close>

theorem import_extraction:
  "\<exists>refs. extractImports content = Some refs \<and>
     (\<forall>ref\<in>set refs. \<exists>pre text post. content = pre @ text @ post \<and> import_statement text ref) \<and>
     (refs \<noteq> [] \<longleftrightarrow>
        (\<exists>pre text post ref. content = pre @ text @ post \<and> import_statement text ref))"
proof -
  let ?refs = "scan_all importRegex True content"
  have 1: "\<forall>ref\<in>set ?refs. \<exists>pre text post. content = pre @ text @ post \<and> import_statement text ref"
  proof
    fix ref assume "ref \<in> set ?refs"
    from scan_all_matches[OF this] obtain pre w post cap' st' where
      "content = pre @ w @ post" "matches importRegex st' (False, []) w cap'" "ref = snd cap'"
      by blast
    with import_statement_st show "\<exists>pre text post. content = pre @ text @ post \<and> import_statement text ref"
      by blast
  qed
  have 2: "?refs \<noteq> [] \<longleftrightarrow>
        (\<exists>pre text post ref. content = pre @ text @ post \<and> import_statement text ref)"
  proof
    assume "?refs \<noteq> []"
    then obtain ref where "ref \<in> set ?refs" by (cases ?refs) auto
    with 1 show "\<exists>pre text post ref. content = pre @ text @ post \<and> import_statement text ref"
      by blast
  next
    assume "\<exists>pre text post ref. content = pre @ text @ post \<and> import_statement text ref"
    then have "exec importRegex True content \<noteq> None" using import_statement_found by blast
    then show "?refs \<noteq> []" using scan_all_empty_iff[OF must_consume_import] by simp
  qed
  from 1 2 show ?thesis unfolding extractImports_scan by blast
qed


lemmas import_eval = extractImports_def exec_loop.simps array_push_def importRegex_def lit_def
  is_chr_def is_space_def is_dot_def is_quote_def

text \<open>
  C10, as stated, fails, for each kind of text that it names: a statement of two lines is
  recognised when the line break is in the white space before \<^verbatim>\<open>from\<close>; a clause of
  several lines, when its last line has the word \<^verbatim>\<open>import\<close>; a side-effect import, when
  its specifier has \<^verbatim>\<open>from\<close> and a quote; a re-export that exports under the name
  \<^verbatim>\<open>import\<close>; and a dynamic import followed by a comment.
\<close>

theorem import_extraction_counterexample:
  "extractImports ''import x\<newline>from \"y\"'' = Some [''y''] \<and>
   extractImports ''import {\<newline> import as foo } from \"./a\"'' = Some [''./a''] \<and>
   extractImports (''import \"./a from '' @ [CHR 0x27] @ ''b'' @ [CHR 0x27] @ ''\"'') = Some [''b''] \<and>
   extractImports ''export { x as import } from \"./a\"'' = Some [''./a''] \<and>
   extractImports ''const m = await import (\"./a\") // from \"cdn\"'' = Some [''cdn'']"
  by (simp add: import_eval)

theorem import_extraction_witness:
  "extractImports ''import a from \"./a\"\<newline>import \"./side.css\"'' = Some [''./a''] \<and>
   (\<exists>pre text post. ''import a from \"./a\"\<newline>import \"./side.css\"'' = pre @ text @ post \<and>
      import_statement text ''./a'') \<and>
   extractImports ''import \"./side.css\"'' = Some [] \<and>
   extractImports ''import {\<newline>  a,\<newline>  b\<newline>} from \"./a\"'' = Some [] \<and>
   extractImports ''export { a } from \"./a\"'' = Some [] \<and>
   extractImports ''const m = await import(\"./a\")'' = Some []"
proof -
  have e: "extractImports ''import a from \"./a\"\<newline>import \"./side.css\"'' = Some [''./a'']"
    by (simp add: import_eval)
  from import_extraction[of "''import a from \"./a\"\<newline>import \"./side.css\"''"] e
  have "\<exists>pre text post. ''import a from \"./a\"\<newline>import \"./side.css\"'' = pre @ text @ post \<and>
      import_statement text ''./a''" by auto
  moreover have "extractImports ''import \"./side.css\"'' = Some []"
    by (simp add: import_eval)
  moreover have "extractImports ''import {\<newline>  a,\<newline>  b\<newline>} from \"./a\"'' = Some []"
    by (simp add: import_eval)
  moreover have "extractImports ''export { a } from \"./a\"'' = Some []"
    by (simp add: import_eval)
  moreover have "extractImports ''const m = await import(\"./a\")'' = Some []"
    by (simp add: import_eval)
  ultimately show ?thesis using e by blast
qed

section \<open>Property 2: resolving an import\<close>

lemma replace_prefix:
  "startsWith s pat \<Longrightarrow> s \<noteq> [] \<Longrightarrow> replace s pat rep = rep @ drop (length pat) s"
  by (cases s) simp_all

lemma alias_candidate_eq:
  assumes "startsWith importPath ''@/''"
  shows "alias_candidate dirname importPath = join [targetRoot dirname, ''src/'' @ drop 2 importPath]"
proof -
  from assms have "importPath \<noteq> []" by (auto simp: startsWith_def)
  from replace_prefix[OF assms this, of "''src/''"] show ?thesis
    by (simp add: alias_candidate_def numeral_2_eq_2)
qed

lemma check_import_checked:
  "checked importPath \<Longrightarrow>
   check_import root dirname componentFile importPath =
     (if resolves root (candidate dirname componentFile importPath) then Inr ()
      else Inl (UnresolvedImport componentFile importPath))"
  by (auto simp: checked_def check_import_def candidate_def)

lemma check_import_exempt:
  "\<not> checked importPath \<Longrightarrow> check_import root dirname componentFile importPath = Inr ()"
  by (auto simp: checked_def check_import_def)

lemma index_inside:
  assumes "segs \<noteq> []" and "list_all valid_name segs"
  shows "join [abs_path segs, ''index.ts''] = abs_path segs @ ''/index.ts''"
    and "join [abs_path segs, ''index.tsx''] = abs_path segs @ ''/index.tsx''"
  using join_dir_name[OF assms, of "''index.ts''"] join_dir_name[OF assms, of "''index.tsx''"]
  by (simp_all add: valid_name_def abs_path_append abs_path_def)

text \<open>
  C5. For an alias or relative import that is checked, the callback passes exactly when
  one of five paths exists: the candidate, the candidate with \<^verbatim>\<open>.ts\<close> or \<^verbatim>\<open>.tsx\<close> appended,
  and \<^verbatim>\<open>index.ts\<close> or \<^verbatim>\<open>index.tsx\<close> joined to the candidate (for a candidate without a
  trailing slash that is the file of this name inside it, lemma \<open>index_inside\<close>). When
  none exists the result is the violation \<open>UnresolvedImport\<close>, a failed expectation, and
  not another exception: \<^verbatim>\<open>existsSync\<close> and \<^verbatim>\<open>join\<close> do not throw.
\<close>

theorem resolution_fallback:
  "checked importPath \<longrightarrow>
     check_import root dirname componentFile importPath =
       (if existsSync root (candidate dirname componentFile importPath) \<or>
           existsSync root (candidate dirname componentFile importPath @ ''.ts'') \<or>
           existsSync root (candidate dirname componentFile importPath @ ''.tsx'') \<or>
           existsSync root (join [candidate dirname componentFile importPath, ''index.ts'']) \<or>
           existsSync root (join [candidate dirname componentFile importPath, ''index.tsx''])
        then Inr () else Inl (UnresolvedImport componentFile importPath))"
  using check_import_checked[of importPath root dirname componentFile, unfolded resolves_def]
  by blast

theorem resolution_fallback_witness:
  "checked ''@/components/Navbar'' \<and>
   candidate ''/proj/app/tests'' ''/proj/app/src/components/Hero.tsx'' ''@/components/Navbar'' =
     ''/proj/app/src/components/Navbar'' \<and>
   existsSync example_tree ''/proj/app/src/components/Navbar.tsx'' \<and>
   check_import example_tree ''/proj/app/tests'' ''/proj/app/src/components/Hero.tsx''
     ''@/components/Navbar'' = Inr () \<and>
   checked ''./ui/button'' \<and>
   candidate ''/proj/app/tests'' ''/proj/app/src/components/Hero.tsx'' ''./ui/button'' =
     ''/proj/app/src/components/ui/button'' \<and>
   check_import example_tree ''/proj/app/tests'' ''/proj/app/src/components/Hero.tsx''
     ''./ui/button'' =
     Inl (UnresolvedImport ''/proj/app/src/components/Hero.tsx'' ''./ui/button'')"
proof -
  have c1: "checked ''@/components/Navbar''" and c2: "checked ''./ui/button''" by code_simp+
  have k1: "candidate ''/proj/app/tests'' ''/proj/app/src/components/Hero.tsx'' ''@/components/Navbar'' =
     ''/proj/app/src/components/Navbar''" by code_simp
  have k2: "candidate ''/proj/app/tests'' ''/proj/app/src/components/Hero.tsx'' ''./ui/button'' =
     ''/proj/app/src/components/ui/button''" by code_simp
  have e1: "existsSync example_tree ''/proj/app/src/components/Navbar.tsx''" by code_simp
  have e2: "\<not> existsSync example_tree ''/proj/app/src/components/ui/button''"
    "\<not> existsSync example_tree ''/proj/app/src/components/ui/button.ts''"
    "\<not> existsSync example_tree ''/proj/app/src/components/ui/button.tsx''"
    "\<not> existsSync example_tree (join [''/proj/app/src/components/ui/button'', ''index.ts''])"
    "\<not> existsSync example_tree (join [''/proj/app/src/components/ui/button'', ''index.tsx''])"
    by code_simp+
  from resolution_fallback[of "''@/components/Navbar''" example_tree "''/proj/app/tests''"
      "''/proj/app/src/components/Hero.tsx''"]
  have 1: "check_import example_tree ''/proj/app/tests'' ''/proj/app/src/components/Hero.tsx''
     ''@/components/Navbar'' = Inr ()" by (simp add: k1 c1 e1)
  from resolution_fallback[of "''./ui/button''" example_tree "''/proj/app/tests''"
      "''/proj/app/src/components/Hero.tsx''"]
  have 2: "check_import example_tree ''/proj/app/tests'' ''/proj/app/src/components/Hero.tsx''
     ''./ui/button'' = Inl (UnresolvedImport ''/proj/app/src/components/Hero.tsx'' ''./ui/button'')"
    by (simp add: k2 c2 e2)
  from c1 c2 k1 k2 e1 1 2 show ?thesis by simp
qed

section \<open>Property 2: the check of a component file\<close>

lemma forEach_pass: "forEach f xs = Inr () \<longleftrightarrow> (\<forall>x\<in>set xs. f x = Inr ())"
  by (induction xs) (auto split: sum.splits)

lemma forEach_fail_iff: "(\<exists>v. forEach f xs = Inl v) \<longleftrightarrow> (\<exists>x\<in>set xs. \<exists>v. f x = Inl v)"
  by (induction xs) (auto split: sum.splits)

lemma check_import_pass:
  "check_import root dirname componentFile p = Inr () \<longleftrightarrow>
   (checked p \<longrightarrow> resolves root (candidate dirname componentFile p))"
  by (cases "checked p") (simp_all add: check_import_checked check_import_exempt)

lemma check_import_fail_iff:
  "(\<exists>v. check_import root dirname componentFile p = Inl v) \<longleftrightarrow>
   checked p \<and> \<not> resolves root (candidate dirname componentFile p)"
  by (cases "checked p") (simp_all add: check_import_checked check_import_exempt)

text \<open>
  C2, as amended. The references of a component file are those that the extraction yields
  from its content. A reference is checked when it begins with \<^verbatim>\<open>.\<close> or with \<^verbatim>\<open>@/\<close> and
  does not begin with \<^verbatim>\<open>@/assets\<close>. The predicate passes on the file exactly when every
  checked reference resolves, and it fails exactly when some checked reference does not
  resolve.
\<close>

theorem import_check:
  "readFileSync root componentFile = Inr content \<longrightarrow>
     (\<exists>imports. extractImports content = Some imports \<and>
        (property2_body root dirname componentFile = Some (Inr True) \<longleftrightarrow>
           (\<forall>p\<in>set imports. checked p \<longrightarrow> resolves root (candidate dirname componentFile p))) \<and>
        ((\<exists>v. property2_body root dirname componentFile = Some (Inl v)) \<longleftrightarrow>
           (\<exists>p\<in>set imports. checked p \<and> \<not> resolves root (candidate dirname componentFile p))))"
proof
  assume r: "readFileSync root componentFile = Inr content"
  let ?imports = "scan_all importRegex True content"
  let ?f = "check_import root dirname componentFile"
  have e: "extractImports content = Some ?imports" by (rule extractImports_scan)
  have body: "property2_body root dirname componentFile =
      (case forEach ?f ?imports of Inl v \<Rightarrow> Some (Inl v) | Inr u \<Rightarrow> Some (Inr True))"
    by (simp add: property2_body_def r e)
  have 1: "property2_body root dirname componentFile = Some (Inr True) \<longleftrightarrow>
           (\<forall>p\<in>set ?imports. checked p \<longrightarrow> resolves root (candidate dirname componentFile p))"
  proof -
    have "property2_body root dirname componentFile = Some (Inr True) \<longleftrightarrow>
          forEach ?f ?imports = Inr ()"
      unfolding body by (cases "forEach ?f ?imports") simp_all
    then show ?thesis unfolding forEach_pass check_import_pass .
  qed
  have 2: "(\<exists>v. property2_body root dirname componentFile = Some (Inl v)) \<longleftrightarrow>
           (\<exists>p\<in>set ?imports. checked p \<and> \<not> resolves root (candidate dirname componentFile p))"
  proof -
    have "(\<exists>v. property2_body root dirname componentFile = Some (Inl v)) \<longleftrightarrow>
          (\<exists>v. forEach ?f ?imports = Inl v)"
      unfolding body by (cases "forEach ?f ?imports") simp_all
    then show ?thesis unfolding forEach_fail_iff check_import_fail_iff .
  qed
  from e 1 2 show "\<exists>imports. extractImports content = Some imports \<and>
        (property2_body root dirname componentFile = Some (Inr True) \<longleftrightarrow>
           (\<forall>p\<in>set imports. checked p \<longrightarrow> resolves root (candidate dirname componentFile p))) \<and>
        ((\<exists>v. property2_body root dirname componentFile = Some (Inl v)) \<longleftrightarrow>
           (\<exists>p\<in>set imports. checked p \<and> \<not> resolves root (candidate dirname componentFile p)))"
    by blast
qed

text \<open>
  C2, as stated, fails: a reference that begins with \<^verbatim>\<open>@/assets\<close> is an alias reference, and
  it is skipped. The file below imports \<^verbatim>\<open>@/assets/logo.svg\<close>, which resolves to nothing, and
  the predicate passes on it.
\<close>

theorem import_check_counterexample:
  "readFileSync example_tree ''/proj/app/src/components/Navbar.tsx'' =
     Inr ''import logo from \"@/assets/logo.svg\"'' \<and>
   extractImports ''import logo from \"@/assets/logo.svg\"'' = Some [''@/assets/logo.svg''] \<and>
   startsWith ''@/assets/logo.svg'' ''@/'' \<and>
   \<not> resolves example_tree (alias_candidate ''/proj/app/tests'' ''@/assets/logo.svg'') \<and>
   check_import example_tree ''/proj/app/tests'' ''/proj/app/src/components/Navbar.tsx''
     ''@/assets/logo.svg'' = Inr () \<and>
   property2_body example_tree ''/proj/app/tests'' ''/proj/app/src/components/Navbar.tsx'' =
     Some (Inr True)"
proof -
  have r: "readFileSync example_tree ''/proj/app/src/components/Navbar.tsx'' =
     Inr ''import logo from \"@/assets/logo.svg\"''" by code_simp
  have e: "extractImports ''import logo from \"@/assets/logo.svg\"'' = Some [''@/assets/logo.svg'']"
    by (simp add: import_eval)
  have s: "startsWith ''@/assets/logo.svg'' ''@/''" by code_simp
  have n: "\<not> resolves example_tree (alias_candidate ''/proj/app/tests'' ''@/assets/logo.svg'')"
    by code_simp
  have c: "check_import example_tree ''/proj/app/tests'' ''/proj/app/src/components/Navbar.tsx''
     ''@/assets/logo.svg'' = Inr ()" by code_simp
  have b: "property2_body example_tree ''/proj/app/tests'' ''/proj/app/src/components/Navbar.tsx'' =
     Some (Inr True)"
    by (simp add: property2_body_def r e c)
  from r e s n c b show ?thesis by simp
qed

theorem import_check_witness:
  "readFileSync example_tree ''/proj/app/src/components/Hero.tsx'' =
     Inr ''import { Navbar } from \"@/components/Navbar\"\<newline>import { Button } from \"./ui/button\"'' \<and>
   extractImports ''import { Navbar } from \"@/components/Navbar\"\<newline>import { Button } from \"./ui/button\"'' =
     Some [''@/components/Navbar'', ''./ui/button''] \<and>
   checked ''./ui/button'' \<and>
   \<not> resolves example_tree
        (candidate ''/proj/app/tests'' ''/proj/app/src/components/Hero.tsx'' ''./ui/button'') \<and>
   (\<exists>v. property2_body example_tree ''/proj/app/tests'' ''/proj/app/src/components/Hero.tsx'' =
     Some (Inl v)) \<and>
   property2_body example_tree ''/proj/app/tests'' ''/proj/app/src/components/Hero.tsx'' \<noteq>
     Some (Inr True)"
proof -
  let ?c = "''import { Navbar } from \"@/components/Navbar\"\<newline>import { Button } from \"./ui/button\"''"
  have r: "readFileSync example_tree ''/proj/app/src/components/Hero.tsx'' = Inr ?c"
    by code_simp
  have e: "extractImports ?c = Some [''@/components/Navbar'', ''./ui/button'']"
    by (simp add: import_eval)
  have c: "checked ''./ui/button''" by code_simp
  have n: "\<not> resolves example_tree
        (candidate ''/proj/app/tests'' ''/proj/app/src/components/Hero.tsx'' ''./ui/button'')"
    by code_simp
  from import_check[of example_tree "''/proj/app/src/components/Hero.tsx''" ?c "''/proj/app/tests''"]
    r e c n
  have "(\<exists>v. property2_body example_tree ''/proj/app/tests'' ''/proj/app/src/components/Hero.tsx'' =
     Some (Inl v)) \<and>
   property2_body example_tree ''/proj/app/tests'' ''/proj/app/src/components/Hero.tsx'' \<noteq>
     Some (Inr True)" by auto
  with r e c n show ?thesis by simp
qed

section \<open>An empty universe\<close>

lemma no_source_components:
  "files_under no_components (sourceComponentsDir ''/proj/app/tests'') = Inr []"
  by code_simp

lemma empty_source_components:
  "files_under empty_components (sourceComponentsDir ''/proj/app/tests'') = Inr []"
  by code_simp

lemma no_target_components:
  "files_under no_components (targetComponentsDir ''/proj/app/tests'') = Inr []"
  by code_simp

text \<open>
  C1. With an empty universe \<^verbatim>\<open>fc.constantFrom()\<close> is called without a value and throws:
  the check does not pass. So it is for a source tree without a components directory or
  with an empty one, for a target tree without a components directory, for a source
  manifest without a Radix package, for one without \<^verbatim>\<open>dependencies\<close>, and for source style
  sheets that declare no custom property.
\<close>

theorem empty_universe_throws:
  "fc_assert [] predicate numRuns rng = Some (Threw ConstantFromEmpty) \<and>
   property1 no_components cwd ''/proj/app/tests'' rng = Some (Threw ConstantFromEmpty) \<and>
   property1 empty_components cwd ''/proj/app/tests'' rng = Some (Threw ConstantFromEmpty) \<and>
   property2 no_components ''/proj/app/tests'' rng = Some (Threw ConstantFromEmpty) \<and>
   property3 \<lparr>dependencies = Some [(''react'', ''^18.2.0'')]\<rparr> targetPackageJson rng =
     Some (Threw ConstantFromEmpty) \<and>
   property3 \<lparr>dependencies = None\<rparr> targetPackageJson rng = Some (Threw ConstantFromEmpty) \<and>
   property4 [] [] targetCss rng = Some (Threw ConstantFromEmpty)"
  by (simp add: fc_assert_empty property1_def property2_def no_source_components
      empty_source_components no_target_components property3_def sourceRadixPackages_def
      deps_or_empty_def startsWith_def property4_def sourceCss_def ev)

end
